theory Spec2Isabelle
  imports Main "HOL-Library.Char_ord" "HOL-Library.List_Lexorder"
begin

section \<open>Python values\<close>

text \<open>
  The generator of \<^verbatim>\<open>A_my_tools/json_to_autogen_py.py\<close> works on the value that
  \<^verbatim>\<open>json.loads\<close> returns: dictionaries with string keys, lists, strings, integers,
  floats, booleans and \<^verbatim>\<open>None\<close>. A dictionary is an association list in insertion
  order (the order Python iterates it in); a Python dictionary never holds a key twice.
  Strings are lists of 8-bit characters, read as the code points below 256.
  A float is represented by the text \<^verbatim>\<open>repr\<close> returns for it (that text determines
  the float). \<open>POther tn r\<close> stands for an object of any other type \<open>tn\<close>, one that is
  no dataclass, has no attribute \<^verbatim>\<open>rsplit\<close> and that \<^verbatim>\<open>pprint\<close> has no
  printer for (a complex number, \<^verbatim>\<open>Ellipsis\<close>, a date), with \<open>r\<close> the text
  \<^verbatim>\<open>repr\<close> returns for it: the functions are annotated \<^verbatim>\<open>Any\<close> and accept it,
  although \<^verbatim>\<open>json.loads\<close> never produces it.
  The trees are finite, and the recursion limit of the interpreter is not part of the
  model: a recursion over a tree is total here, however deep the tree.
\<close>

datatype pyval =
    PNone
  | PBool bool
  | PInt int
  | PFloat string
  | PStr string
  | PList "pyval list"
  | PDict "(string \<times> pyval) list"
  | POther string string

text \<open>Exceptions are values: the class of the exception and its message.\<close>

datatype error = Exn string string


definition ValueError :: "string \<Rightarrow> error" where
  "ValueError msg = Exn ''ValueError'' msg"

definition AttributeError :: "string \<Rightarrow> error" where
  "AttributeError msg = Exn ''AttributeError'' msg"

text \<open>Every dictionary of the tree holds each key once.\<close>

fun distinct_keys :: "pyval \<Rightarrow> bool" where
  "distinct_keys (PDict kvs) =
     (distinct (map fst kvs) \<and> (\<forall>v \<in> set (map snd kvs). distinct_keys v))"
| "distinct_keys (PList xs) = (\<forall>v \<in> set xs. distinct_keys v)"
| "distinct_keys _ = True"

text \<open>The trees \<^verbatim>\<open>json.loads\<close> can return: no object of another type.\<close>

fun is_json :: "pyval \<Rightarrow> bool" where
  "is_json (PDict kvs) = (\<forall>v \<in> set (map snd kvs). is_json v)"
| "is_json (PList xs) = (\<forall>v \<in> set xs. is_json v)"
| "is_json (POther tn r) = False"
| "is_json _ = True"

text \<open>\<^verbatim>\<open>type(v).__name__\<close>, as it appears in the message of an AttributeError.\<close>

fun type_name :: "pyval \<Rightarrow> string" where
  "type_name PNone = ''NoneType''"
| "type_name (PBool b) = ''bool''"
| "type_name (PInt i) = ''int''"
| "type_name (PFloat r) = ''float''"
| "type_name (PStr s) = ''str''"
| "type_name (PList xs) = ''list''"
| "type_name (PDict kvs) = ''dict''"
| "type_name (POther tn r) = tn"

section \<open>Helper 1: \<^verbatim>\<open>split_provider\<close>\<close>

text \<open>
  \<^verbatim>\<open>provider.rsplit(".", 1)\<close>: the text before and after the last dot, or the whole
  text alone when it has no dot.
\<close>

definition rsplit_dot1 :: "string \<Rightarrow> string list" where
  "rsplit_dot1 s =
     (if CHR ''.'' \<in> set s
      then [rev (tl (dropWhile (\<lambda>c. c \<noteq> CHR ''.'') (rev s))),
            rev (takeWhile (\<lambda>c. c \<noteq> CHR ''.'') (rev s))]
      else [s])"

text \<open>
  \<^verbatim>\<open>mod, cls = provider.rsplit(".", 1)\<close>: unpacking a list of one element raises
  ValueError; a provider that is no string has no \<^verbatim>\<open>rsplit\<close>.
\<close>

definition unpack_msg :: string where
  "unpack_msg = ''not enough values to unpack (expected 2, got 1)''"

definition split_provider :: "pyval \<Rightarrow> error + string \<times> string" where
  "split_provider provider =
     (case provider of
        PStr s \<Rightarrow>
          (case rsplit_dot1 s of
             [m, c] \<Rightarrow> Inr (m, c)
           | _ \<Rightarrow> Inl (ValueError unpack_msg))
      | _ \<Rightarrow>
          Inl (AttributeError ([CHR 0x27] @ type_name provider @ [CHR 0x27] @
                 '' object has no attribute '' @ [CHR 0x27] @ ''rsplit'' @ [CHR 0x27])))"

section \<open>Helper 2: \<^verbatim>\<open>dict_to_python_literal\<close>\<close>

text \<open>
  \<^verbatim>\<open>pprint.pformat(d, width=88, indent=2, compact=False, sort_dicts=True)\<close>. The
  printer belongs to Python's standard library; what follows transcribes its
  \<^verbatim>\<open>PrettyPrinter\<close> for the values above, function by function and under the
  library's names, with the width 88 and the indentation step 2 of the call written in.
  The printer's guard against a container that contains itself is left out: the values
  here are finite trees. Python refuses to convert an integer beyond its configurable digit
  limit; integers are taken to be within it.
\<close>

subsection \<open>Characters and \<^verbatim>\<open>repr\<close> of scalars\<close>

text \<open>\<^verbatim>\<open>str.isspace\<close>, also the class \<^verbatim>\<open>\s\<close> of a regular expression.\<close>

definition py_isspace :: "char \<Rightarrow> bool" where
  "py_isspace c = (of_char c \<in> {9, 10, 11, 12, 13, 28, 29, 30, 31, 32, 133, 160 :: nat})"

text \<open>The line boundaries of \<^verbatim>\<open>str.splitlines\<close>.\<close>

definition is_linebreak :: "char \<Rightarrow> bool" where
  "is_linebreak c = (of_char c \<in> {10, 11, 12, 13, 28, 29, 30, 133 :: nat})"

text \<open>\<^verbatim>\<open>str.isprintable\<close> on the code points below 256.\<close>

definition py_isprintable :: "char \<Rightarrow> bool" where
  "py_isprintable c =
     (let n = of_char c :: nat in (32 \<le> n \<and> n < 127) \<or> (161 \<le> n \<and> n \<noteq> 173))"

definition hex_digit :: "nat \<Rightarrow> char" where
  "hex_digit n = (if n < 10 then char_of (48 + n) else char_of (87 + n))"

text \<open>
  \<^verbatim>\<open>repr\<close> of a string: double quotes when the text has a single quote and no double
  quote, single quotes otherwise; the quote and the backslash escaped, tab, newline and
  carriage return by letter, every other unprintable character as \<^verbatim>\<open>\xNN\<close>.
\<close>

definition repr_char :: "char \<Rightarrow> char \<Rightarrow> string" where
  "repr_char quote c =
     (if c = quote \<or> c = CHR 0x5C then [CHR 0x5C, c]
      else if c = CHR 0x09 then [CHR 0x5C, CHR ''t'']
      else if c = CHR 0x0A then [CHR 0x5C, CHR ''n'']
      else if c = CHR 0x0D then [CHR 0x5C, CHR ''r'']
      else if py_isprintable c then [c]
      else [CHR 0x5C, CHR ''x'', hex_digit (of_char c div 16), hex_digit (of_char c mod 16)])"

definition repr_str :: "string \<Rightarrow> string" where
  "repr_str s =
     (let quote = (if CHR 0x27 \<in> set s \<and> CHR 0x22 \<notin> set s then CHR 0x22 else CHR 0x27)
      in [quote] @ concat (map (repr_char quote) s) @ [quote])"

fun repr_nat :: "nat \<Rightarrow> string" where
  "repr_nat n =
     (if n < 10 then [char_of (48 + n)]
      else repr_nat (n div 10) @ [char_of (48 + n mod 10)])"

declare repr_nat.simps [simp del]

definition repr_int :: "int \<Rightarrow> string" where
  "repr_int i = (if i < 0 then CHR ''-'' # repr_nat (nat (- i)) else repr_nat (nat i))"

text \<open>\<^verbatim>\<open>sep.join(xs)\<close>.\<close>

fun join :: "string \<Rightarrow> string list \<Rightarrow> string" where
  "join sep [] = []"
| "join sep [x] = x"
| "join sep (x # y # ys) = x @ sep @ join sep (y # ys)"

subsection \<open>\<^verbatim>\<open>_safe_repr\<close>: the one-line form\<close>

text \<open>
  \<^verbatim>\<open>sorted(object.items(), key=_safe_tuple)\<close> orders the items of a dictionary by
  key: the keys are strings and differ from each other, so the values are never compared.
\<close>

fun safe_repr :: "pyval \<Rightarrow> string" where
  "safe_repr PNone = ''None''"
| "safe_repr (PBool b) = (if b then ''True'' else ''False'')"
| "safe_repr (PInt i) = repr_int i"
| "safe_repr (PFloat r) = r"
| "safe_repr (PStr s) = repr_str s"
| "safe_repr (POther tn r) = r"
| "safe_repr (PDict kvs) =
     (if kvs = [] then ''{}''
      else ''{'' @ join '', '' (map (\<lambda>(k, v). repr_str k @ '': '' @ safe_repr v)
                                  (sort_key fst kvs)) @ ''}'')"
| "safe_repr (PList xs) =
     (if xs = [] then ''[]'' else ''['' @ join '', '' (map safe_repr xs) @ '']'')"

subsection \<open>\<^verbatim>\<open>_pprint_str\<close>: a long string in chunks\<close>

text \<open>\<^verbatim>\<open>object.splitlines(True)\<close>, the line being read carried along.\<close>

fun splitlines :: "string \<Rightarrow> string \<Rightarrow> string list" where
  "splitlines cur [] = (if cur = [] then [] else [cur])"
| "splitlines cur [c] = [cur @ [c]]"
| "splitlines cur (c # d # cs) =
     (if c = CHR 0x0D \<and> d = CHR 0x0A then (cur @ [c, d]) # splitlines [] cs
      else if is_linebreak c then (cur @ [c]) # splitlines [] (d # cs)
      else splitlines (cur @ [c]) (d # cs))"

text \<open>
  \<^verbatim>\<open>re.findall(r'\S*\s*', line)\<close> without its empty last match: the line cut after
  each run of whitespace. \<open>sp\<close> tells that the part being read has reached its
  whitespace.
\<close>

fun re_parts :: "bool \<Rightarrow> string \<Rightarrow> string \<Rightarrow> string list" where
  "re_parts sp cur [] = (if cur = [] then [] else [cur])"
| "re_parts sp cur (c # cs) =
     (if py_isspace c then re_parts True (cur @ [c]) cs
      else if sp then cur # re_parts False [c] cs
      else re_parts False (cur @ [c]) cs)"

text \<open>The loop over the parts of one line that is too long.\<close>

fun wrap_parts :: "bool \<Rightarrow> int \<Rightarrow> nat \<Rightarrow> string \<Rightarrow> string list \<Rightarrow> string list" where
  "wrap_parts last_line max_width allowance current [] =
     (if current = [] then [] else [repr_str current])"
| "wrap_parts last_line max_width allowance current (part # parts) =
     (let candidate = current @ part;
          max_width2 = (if parts = [] \<and> last_line then max_width - int allowance else max_width)
      in if int (length (repr_str candidate)) > max_width2
         then (if current = [] then [] else [repr_str current])
              @ wrap_parts last_line max_width allowance part parts
         else wrap_parts last_line max_width allowance candidate parts)"

text \<open>The loop over the lines.\<close>

fun str_chunks :: "int \<Rightarrow> nat \<Rightarrow> string list \<Rightarrow> string list" where
  "str_chunks max_width allowance [] = []"
| "str_chunks max_width allowance (line # lines) =
     (let rep = repr_str line;
          max_width1 = (if lines = [] then max_width - int allowance else max_width)
      in (if int (length rep) \<le> max_width1 then [rep]
          else wrap_parts (lines = []) max_width allowance [] (re_parts False [] line))
         @ str_chunks max_width allowance lines)"

definition pprint_str :: "string \<Rightarrow> nat \<Rightarrow> nat \<Rightarrow> nat \<Rightarrow> string" where
  "pprint_str object indent0 allowance0 level =
     (if object = [] then repr_str object
      else
        let lines = splitlines [] object;
            indent = (if level = 1 then indent0 + 1 else indent0);
            allowance = (if level = 1 then allowance0 + 1 else allowance0);
            chunks = str_chunks (88 - int indent) allowance lines
        in if length chunks = 1 then repr_str (last lines)
           else (if level = 1 then ''('' else [])
                @ join (CHR 0x0A # replicate indent CHR '' '') chunks
                @ (if level = 1 then '')'' else []))"

subsection \<open>\<^verbatim>\<open>_format\<close> and the printers of containers\<close>

text \<open>
  The printers call \<^verbatim>\<open>self._format\<close> on the entries; here they take it as the
  argument \<open>fmt\<close>. Each loop is a recursion over the items left.
\<close>

fun dict_items_loop ::
  "(pyval \<Rightarrow> nat \<Rightarrow> nat \<Rightarrow> nat \<Rightarrow> string) \<Rightarrow> (string \<times> pyval) list \<Rightarrow>
   nat \<Rightarrow> nat \<Rightarrow> nat \<Rightarrow> string"
where
  "dict_items_loop fmt [] indent allowance level = []"
| "dict_items_loop fmt ((key, ent) # items) indent allowance level =
     (let last = (items = []);
          rep = repr_str key
      in rep @ '': ''
         @ fmt ent (indent + length rep + 2) (if last then allowance else 1) level
         @ (if last then []
            else '','' @ [CHR 0x0A] @ replicate indent CHR '' ''
                 @ dict_items_loop fmt items indent allowance level))"

definition format_dict_items ::
  "(pyval \<Rightarrow> nat \<Rightarrow> nat \<Rightarrow> nat \<Rightarrow> string) \<Rightarrow> (string \<times> pyval) list \<Rightarrow>
   nat \<Rightarrow> nat \<Rightarrow> nat \<Rightarrow> string"
where
  "format_dict_items fmt items indent allowance level =
     dict_items_loop fmt items (indent + 2) allowance level"

fun items_loop ::
  "(pyval \<Rightarrow> nat \<Rightarrow> nat \<Rightarrow> nat \<Rightarrow> string) \<Rightarrow> pyval list \<Rightarrow> nat \<Rightarrow> nat \<Rightarrow> nat \<Rightarrow> string"
where
  "items_loop fmt [] indent allowance level = []"
| "items_loop fmt (ent # items) indent allowance level =
     (let last = (items = [])
      in fmt ent indent (if last then allowance else 1) level
         @ (if last then []
            else '','' @ [CHR 0x0A] @ replicate indent CHR '' ''
                 @ items_loop fmt items indent allowance level))"

definition format_items ::
  "(pyval \<Rightarrow> nat \<Rightarrow> nat \<Rightarrow> nat \<Rightarrow> string) \<Rightarrow> pyval list \<Rightarrow> nat \<Rightarrow> nat \<Rightarrow> nat \<Rightarrow> string"
where
  "format_items fmt items indent allowance level =
     '' '' @ items_loop fmt items (indent + 2) allowance level"

definition pprint_dict ::
  "(pyval \<Rightarrow> nat \<Rightarrow> nat \<Rightarrow> nat \<Rightarrow> string) \<Rightarrow> (string \<times> pyval) list \<Rightarrow>
   nat \<Rightarrow> nat \<Rightarrow> nat \<Rightarrow> string"
where
  "pprint_dict fmt object indent allowance level =
     ''{'' @ '' ''
     @ (if object \<noteq> []
        then format_dict_items fmt (sort_key fst object) indent (allowance + 1) level
        else [])
     @ ''}''"

definition pprint_list ::
  "(pyval \<Rightarrow> nat \<Rightarrow> nat \<Rightarrow> nat \<Rightarrow> string) \<Rightarrow> pyval list \<Rightarrow> nat \<Rightarrow> nat \<Rightarrow> nat \<Rightarrow> string"
where
  "pprint_list fmt object indent allowance level =
     ''['' @ format_items fmt object indent (allowance + 1) level @ '']''"

text \<open>The printers use \<open>fmt\<close> on the entries of the container only.\<close>

lemma dict_items_loop_cong:
  "(\<And>v i a l. v \<in> snd ` set items \<Longrightarrow> f v i a l = g v i a l) \<Longrightarrow>
   dict_items_loop f items indent allowance level = dict_items_loop g items indent allowance level"
proof (induction items arbitrary: indent allowance level)
  case (Cons p items)
  obtain k v where p: "p = (k, v)" by (cases p)
  have tl: "dict_items_loop f items i a l = dict_items_loop g items i a l" for i a l
    using Cons.prems by (intro Cons.IH) simp
  have hd: "f v i a l = g v i a l" for i a l
    using Cons.prems p by simp
  show ?case by (simp add: p Let_def tl hd)
qed simp

lemma items_loop_cong:
  "(\<And>v i a l. v \<in> set items \<Longrightarrow> f v i a l = g v i a l) \<Longrightarrow>
   items_loop f items indent allowance level = items_loop g items indent allowance level"
proof (induction items arbitrary: indent allowance level)
  case (Cons v items)
  have tl: "items_loop f items i a l = items_loop g items i a l" for i a l
    using Cons.prems by (intro Cons.IH) simp
  have hd: "f v i a l = g v i a l" for i a l
    using Cons.prems by simp
  show ?case by (simp add: Let_def tl hd)
qed simp

lemma pprint_dict_cong [fundef_cong]:
  "kvs = kvs' \<Longrightarrow> indent = indent' \<Longrightarrow> allowance = allowance' \<Longrightarrow> level = level' \<Longrightarrow>
   (\<And>v i a l. v \<in> snd ` set kvs' \<Longrightarrow> f v i a l = g v i a l) \<Longrightarrow>
   pprint_dict f kvs indent allowance level = pprint_dict g kvs' indent' allowance' level'"
  unfolding pprint_dict_def format_dict_items_def
  using dict_items_loop_cong[of "sort_key fst kvs'" f g] by simp

lemma pprint_list_cong [fundef_cong]:
  "xs = xs' \<Longrightarrow> indent = indent' \<Longrightarrow> allowance = allowance' \<Longrightarrow> level = level' \<Longrightarrow>
   (\<And>v i a l. v \<in> set xs' \<Longrightarrow> f v i a l = g v i a l) \<Longrightarrow>
   pprint_list f xs indent allowance level = pprint_list g xs' indent' allowance' level'"
  unfolding pprint_list_def format_items_def
  using items_loop_cong[of xs' f g] by simp

text \<open>
  \<^verbatim>\<open>_format\<close>: the one-line form when it fits in what is left of the line, the
  printer of the type otherwise; a type without a printer is written in one line.
\<close>

fun format :: "pyval \<Rightarrow> nat \<Rightarrow> nat \<Rightarrow> nat \<Rightarrow> string" where
  "format object indent allowance level =
     (let rep = safe_repr object
      in if int (length rep) > 88 - int indent - int allowance
         then (case object of
                 PDict kvs \<Rightarrow> pprint_dict format kvs indent allowance (level + 1)
               | PList xs \<Rightarrow> pprint_list format xs indent allowance (level + 1)
               | PStr s \<Rightarrow> pprint_str s indent allowance (level + 1)
               | _ \<Rightarrow> rep)
         else rep)"

declare format.simps [simp del]

definition pformat :: "pyval \<Rightarrow> string" where
  "pformat object = format object 0 0 0"

text \<open>The helper of the generator: no step of it raises, so the result is a text.\<close>

definition dict_to_python_literal :: "pyval \<Rightarrow> string" where
  "dict_to_python_literal d = pformat d"

section \<open>Helper 3: \<^verbatim>\<open>collect_providers\<close>\<close>

text \<open>
  The bag is the set the calls share; a call without a bag starts from the empty set,
  \<open>collect_providers spec {}\<close>.
\<close>

fun collect_providers :: "pyval \<Rightarrow> string set \<Rightarrow> string set" where
  "collect_providers (PDict kvs) bag =
     fold (\<lambda>v b. collect_providers v b) (map snd kvs)
       (case map_of kvs ''provider'' of
          Some (PStr prov) \<Rightarrow> insert prov bag
        | _ \<Rightarrow> bag)"
| "collect_providers (PList xs) bag = fold (\<lambda>v b. collect_providers v b) xs bag"
| "collect_providers _ bag = bag"

text \<open>
  The specification's reading: a string is recorded when it is the value of a key
  \<^verbatim>\<open>"provider"\<close> of some dictionary of the tree.
\<close>

inductive under_provider :: "pyval \<Rightarrow> string \<Rightarrow> bool" where
  here: "(''provider'', PStr s) \<in> set kvs \<Longrightarrow> under_provider (PDict kvs) s"
| in_dict: "(k, v) \<in> set kvs \<Longrightarrow> under_provider v s \<Longrightarrow> under_provider (PDict kvs) s"
| in_list: "v \<in> set xs \<Longrightarrow> under_provider v s \<Longrightarrow> under_provider (PList xs) s"

section \<open>Explicit constructor templates\<close>

text \<open>
  \<^verbatim>\<open>EXPLICIT_CTORS\<close> maps a provider string to a template text; the table of the
  source is empty, and the user is invited to extend it. The functions below take the table
  as the argument \<open>ctors\<close>, and \<^verbatim>\<open>template.format(var=var, cfg=spec)\<close> of the standard
  library as the argument \<open>fmt\<close>: from the template, the variable name and the whole spec
  to the rendered code, or to the exception the rendering raises.
\<close>

type_synonym ctors = "string \<rightharpoonup> string"

type_synonym template_format = "string \<Rightarrow> string \<Rightarrow> pyval \<Rightarrow> error + string"

definition EXPLICIT_CTORS :: ctors where
  "EXPLICIT_CTORS = Map.empty"

section \<open>The core emitter: \<^verbatim>\<open>emit_builder\<close>\<close>

definition top_level_msg :: string where
  "top_level_msg =
     ''Top-level spec must be a dict with a '' @ [CHR 0x27] @ ''provider'' @ [CHR 0x27] @ '' key.''"

text \<open>
  \<^verbatim>\<open>imports\<close> is a set the caller passes in and the function adds to. The result is
  the exception raised or the code returned, together with the content of that set when the
  call ends; on success the pair is what the function returns.
  \<^verbatim>\<open>EXPLICIT_CTORS.get(provider)\<close> is reached by strings only.
\<close>

definition emit_builder ::
  "template_format \<Rightarrow> ctors \<Rightarrow> pyval \<Rightarrow> string \<Rightarrow> (string \<times> string) set \<Rightarrow>
   (error + string) \<times> (string \<times> string) set"
where
  "emit_builder fmt ctors spec var imports =
     (case spec of
        PDict kvs \<Rightarrow>
          (case map_of kvs ''provider'' of
             None \<Rightarrow> (Inl (ValueError top_level_msg), imports)
           | Some provider \<Rightarrow>
               (case split_provider provider of
                  Inl e \<Rightarrow> (Inl e, imports)
                | Inr (module, cls_name) \<Rightarrow>
                    let imports' = insert (module, cls_name) imports;
                        template = (case provider of PStr p \<Rightarrow> ctors p | _ \<Rightarrow> None)
                    in (case template of
                          Some tpl \<Rightarrow>
                            if tpl \<noteq> [] then (fmt tpl var spec, imports')
                            else (Inr (var @ '' = '' @ cls_name @ ''.load_component(''
                                       @ dict_to_python_literal spec @ '')''), imports')
                        | None \<Rightarrow>
                            (Inr (var @ '' = '' @ cls_name @ ''.load_component(''
                                  @ dict_to_python_literal spec @ '')''), imports'))))
      | _ \<Rightarrow> (Inl (ValueError top_level_msg), imports))"

section \<open>The entry point: \<^verbatim>\<open>generate_python_from_json\<close>\<close>

subsection \<open>\<^verbatim>\<open>textwrap.dedent\<close>, \<^verbatim>\<open>strip\<close> and \<^verbatim>\<open>rstrip\<close>\<close>

text \<open>\<^verbatim>\<open>text.split("\n")\<close>, the line being read carried along.\<close>

fun split_nl :: "string \<Rightarrow> string \<Rightarrow> string list" where
  "split_nl cur [] = [cur]"
| "split_nl cur (c # cs) =
     (if c = CHR 0x0A then cur # split_nl [] cs else split_nl (cur @ [c]) cs)"

definition blank_char :: "char \<Rightarrow> bool" where
  "blank_char c = (c = CHR '' '' \<or> c = CHR 0x09)"

text \<open>
  The loop of \<^verbatim>\<open>dedent\<close> over the indents: the margin is the first indent, then what
  it has in common with each next one. \<open>cut_at_mismatch\<close> is the inner loop over
  \<^verbatim>\<open>zip(margin, indent)\<close>.
\<close>

fun cut_at_mismatch :: "string \<Rightarrow> string \<Rightarrow> string" where
  "cut_at_mismatch (x # xs) (y # ys) = (if x \<noteq> y then [] else x # cut_at_mismatch xs ys)"
| "cut_at_mismatch xs ys = xs"

definition starts_with :: "string \<Rightarrow> string \<Rightarrow> bool" where
  "starts_with s p = (take (length p) s = p)"

fun margin_step :: "string option \<Rightarrow> string \<Rightarrow> string option" where
  "margin_step None indent = Some indent"
| "margin_step (Some margin) indent =
     (if starts_with indent margin then Some margin
      else if starts_with margin indent then Some indent
      else Some (cut_at_mismatch margin indent))"

text \<open>
  \<^verbatim>\<open>dedent\<close>: a line of blanks and tabs only becomes empty; the indents are those of
  the lines that hold another character; a margin that is not empty is removed from the
  start of every line that has it.
\<close>

definition dedent :: "string \<Rightarrow> string" where
  "dedent text =
     (let lines = map (\<lambda>l. if l \<noteq> [] \<and> list_all blank_char l then [] else l) (split_nl [] text);
          indents = map (takeWhile blank_char) (filter (\<lambda>l. dropWhile blank_char l \<noteq> []) lines)
      in case fold (\<lambda>indent margin. margin_step margin indent) indents None of
           Some margin \<Rightarrow>
             if margin \<noteq> []
             then join [CHR 0x0A]
                    (map (\<lambda>l. if starts_with l margin then drop (length margin) l else l) lines)
             else join [CHR 0x0A] lines
         | None \<Rightarrow> join [CHR 0x0A] lines)"

definition rstrip :: "string \<Rightarrow> string" where
  "rstrip s = rev (dropWhile py_isspace (rev s))"

definition strip :: "string \<Rightarrow> string" where
  "strip s = rstrip (dropWhile py_isspace s)"

subsection \<open>The header and the runner\<close>

text \<open>\<open>name\<close> is \<^verbatim>\<open>json_path.name\<close>, put into the text before it is dedented.\<close>

definition header :: "string \<Rightarrow> string" where
  "header name =
     rstrip (dedent (
       ''        # This file was generated from: '' @ name @ [CHR 0x0A] @
       ''        # It reconstructs your AutoGen 0.4.x configuration in pure Python.'' @ [CHR 0x0A] @
       ''        # You can now edit it freely (no JSON needed at runtime).'' @ [CHR 0x0A] @
       ''        ''))"

definition run_block :: string where
  "run_block =
     strip (dedent (
       [CHR 0x0A] @
       ''        import asyncio'' @ [CHR 0x0A] @
       [CHR 0x0A] @
       ''        async def main():'' @ [CHR 0x0A] @
       ''            # '' @ [CHR 0x27] @ ''team'' @ [CHR 0x27] @
         '' is constructed above. Provide any task you want to run:'' @ [CHR 0x0A] @
       ''            result = await team.run(task='' @ [CHR 0x22] @
         ''Say hello (generated code).'' @ [CHR 0x22] @ '')'' @ [CHR 0x0A] @
       ''            print(result)'' @ [CHR 0x0A] @
       [CHR 0x0A] @
       ''        if __name__ == '' @ [CHR 0x22] @ ''__main__'' @ [CHR 0x22] @ '':'' @ [CHR 0x0A] @
       ''            asyncio.run(main())'' @ [CHR 0x0A] @
       ''        ''))"

subsection \<open>Import lines\<close>

text \<open>
  The classes grouped by module, one line for each module, modules and classes sorted.
  The items of \<^verbatim>\<open>by_module\<close> are sorted as pairs; the modules differ from each other,
  so the sets of classes are never compared.
\<close>

definition by_module :: "(string \<times> string) set \<Rightarrow> (string \<times> string set) list" where
  "by_module import_set =
     map (\<lambda>m. (m, snd ` Set.filter (\<lambda>p. fst p = m) import_set))
       (sorted_list_of_set (fst ` import_set))"

definition import_lines :: "(string \<times> string) set \<Rightarrow> string list" where
  "import_lines import_set =
     map (\<lambda>(m, classes). ''from '' @ m @ '' import '' @ join '', '' (sorted_list_of_set classes))
       (by_module import_set)"

subsection \<open>The generated file\<close>

text \<open>
  \<open>spec\<close> is what \<^verbatim>\<open>json.loads\<close> made of the input file; reading and parsing the
  input and writing the output are the library's and lie outside. The result is the text
  handed to \<^verbatim>\<open>out_path.write_text\<close>, or the exception that ends the run before
  anything is written. The providers of step 2 are collected, sorted and dropped.
\<close>

definition generate_content ::
  "template_format \<Rightarrow> ctors \<Rightarrow> string \<Rightarrow> pyval \<Rightarrow> error + string"
where
  "generate_content fmt ctors name spec =
     (let unused = sorted_list_of_set (collect_providers spec {})
      in case emit_builder fmt ctors spec ''team'' {} of
           (Inl e, import_set) \<Rightarrow> Inl e
         | (Inr body_code, import_set) \<Rightarrow>
             Inr (join [CHR 0x0A, CHR 0x0A]
                    ([header name] @ import_lines import_set
                     @ [[], body_code, [], run_block, []])))"

text \<open>
  The function of the source: the module's own table, which is empty, so the rendering of
  templates is never called.
\<close>

definition generate_python_from_json :: "string \<Rightarrow> pyval \<Rightarrow> error + string" where
  "generate_python_from_json name spec =
     generate_content (\<lambda>tpl var cfg. Inr tpl) EXPLICIT_CTORS name spec"

section \<open>Reading a literal back\<close>

text \<open>
  The generated file hands the literal to \<^verbatim>\<open>load_component\<close>: the Python interpreter
  reads it back into a value. \<open>decode\<close> is that reading for the displays the printer
  writes: dictionaries with string keys, lists, strings (adjacent literals concatenated, a
  parenthesised expression), integers, floats, \<^verbatim>\<open>None\<close>, \<^verbatim>\<open>True\<close> and
  \<^verbatim>\<open>False\<close>; everything else is refused. The literal stands inside the parentheses of
  the call, so line ends are whitespace.
\<close>

text \<open>Whitespace between the tokens of an expression in brackets.\<close>

definition py_blank :: "char \<Rightarrow> bool" where
  "py_blank c = (c = CHR '' '' \<or> c = CHR 0x09 \<or> c = CHR 0x0A \<or> c = CHR 0x0C \<or> c = CHR 0x0D)"

definition skip_ws :: "string \<Rightarrow> string" where
  "skip_ws s = dropWhile py_blank s"

definition is_digit :: "char \<Rightarrow> bool" where
  "is_digit c = (48 \<le> (of_char c :: nat) \<and> (of_char c :: nat) \<le> 57)"

definition ident_char :: "char \<Rightarrow> bool" where
  "ident_char c =
     (let n = of_char c :: nat
      in (48 \<le> n \<and> n \<le> 57) \<or> (65 \<le> n \<and> n \<le> 90) \<or> (97 \<le> n \<and> n \<le> 122) \<or> n = 95 \<or> 128 \<le> n)"

definition hex_val :: "char \<Rightarrow> nat option" where
  "hex_val c =
     (let n = of_char c :: nat
      in if 48 \<le> n \<and> n \<le> 57 then Some (n - 48)
         else if 97 \<le> n \<and> n \<le> 102 then Some (n - 87)
         else if 65 \<le> n \<and> n \<le> 70 then Some (n - 55)
         else None)"

text \<open>The escapes of a string literal that \<^verbatim>\<open>repr\<close> writes.\<close>

definition unescape :: "char \<Rightarrow> char option" where
  "unescape e =
     (if e = CHR 0x5C \<or> e = CHR 0x27 \<or> e = CHR 0x22 then Some e
      else if e = CHR ''n'' then Some (CHR 0x0A)
      else if e = CHR ''r'' then Some (CHR 0x0D)
      else if e = CHR ''t'' then Some (CHR 0x09)
      else None)"

text \<open>
  The body of a string literal up to the closing quote \<open>q\<close>: the text it denotes and the
  input left. A raw line end inside the literal is an error.
\<close>

fun lex_str_body :: "char \<Rightarrow> string \<Rightarrow> (string \<times> string) option" where
  "lex_str_body q [] = None"
| "lex_str_body q (c # r) =
     (if c = q then Some ([], r)
      else if c = CHR 0x0A \<or> c = CHR 0x0D then None
      else if c = CHR 0x5C then
        (case r of
           [] \<Rightarrow> None
         | e # r' \<Rightarrow>
             if e = CHR ''x'' then
               (case r' of
                  h1 # h2 # r'' \<Rightarrow>
                    (case (hex_val h1, hex_val h2) of
                       (Some a, Some b) \<Rightarrow>
                         map_option (\<lambda>(x, rest). (char_of (16 * a + b) # x, rest))
                           (lex_str_body q r'')
                     | _ \<Rightarrow> None)
                | _ \<Rightarrow> None)
             else
               (case unescape e of
                  Some d \<Rightarrow> map_option (\<lambda>(x, rest). (d # x, rest)) (lex_str_body q r')
                | None \<Rightarrow> None))
      else map_option (\<lambda>(x, rest). (c # x, rest)) (lex_str_body q r))"

text \<open>
  A number is the longest run of digits, dots, signs and the letter e; it is an integer
  (without leading zeros) or a float in the forms \<^verbatim>\<open>repr\<close> writes for a finite float,
  and the float is represented by its text. \<^verbatim>\<open>nan\<close> and \<^verbatim>\<open>inf\<close> are names, not
  literals, and are refused.
\<close>

definition num_char :: "char \<Rightarrow> bool" where
  "num_char c = (is_digit c \<or> c = CHR ''.'' \<or> c = CHR ''e'' \<or> c = CHR ''+'' \<or> c = CHR ''-'')"

definition digits_text :: "string \<Rightarrow> bool" where
  "digits_text ds = (ds \<noteq> [] \<and> list_all is_digit ds \<and> (hd ds = CHR ''0'' \<longrightarrow> list_all (\<lambda>c. c = CHR ''0'') ds))"

definition int_text :: "string \<Rightarrow> bool" where
  "int_text tok = (case tok of c # r \<Rightarrow> if c = CHR ''-'' then digits_text r else digits_text tok | [] \<Rightarrow> False)"

definition nat_value :: "string \<Rightarrow> nat" where
  "nat_value ds = fold (\<lambda>c n. 10 * n + (of_char c - 48)) ds 0"

definition int_value :: "string \<Rightarrow> int" where
  "int_value tok = (case tok of c # r \<Rightarrow> if c = CHR ''-'' then - int (nat_value r) else int (nat_value tok) | [] \<Rightarrow> 0)"

fun fl_digits :: "string \<Rightarrow> bool" where
  "fl_digits [] = False"
| "fl_digits (c # r) = (is_digit c \<and> (r = [] \<or> fl_digits r))"

definition fl_exp :: "string \<Rightarrow> bool" where
  "fl_exp s = (case s of c # r \<Rightarrow> if c = CHR ''+'' \<or> c = CHR ''-'' then fl_digits r else fl_digits s | [] \<Rightarrow> False)"

fun fl_frac :: "string \<Rightarrow> bool" where
  "fl_frac [] = True"
| "fl_frac (c # r) = (if is_digit c then fl_frac r else c = CHR ''e'' \<and> fl_exp r)"

fun fl_int :: "string \<Rightarrow> bool" where
  "fl_int [] = False"
| "fl_int (c # r) =
     (if is_digit c then fl_int r else if c = CHR ''.'' then fl_frac r else c = CHR ''e'' \<and> fl_exp r)"

definition float_text :: "string \<Rightarrow> bool" where
  "float_text tok =
     (case tok of
        c # r \<Rightarrow> if c = CHR ''-'' then (case r of d # r' \<Rightarrow> is_digit d \<and> fl_int r' | [] \<Rightarrow> False)
                 else is_digit c \<and> fl_int r
      | [] \<Rightarrow> False)"

text \<open>\<^verbatim>\<open>None\<close>, \<^verbatim>\<open>True\<close> and \<^verbatim>\<open>False\<close>, not followed by a character of a name.\<close>

definition keyword :: "string \<Rightarrow> string \<Rightarrow> bool" where
  "keyword kw s = (take (length kw) s = kw \<and> (case drop (length kw) s of c # r \<Rightarrow> \<not> ident_char c | [] \<Rightarrow> True))"

definition lex_atom :: "string \<Rightarrow> (pyval \<times> string) option" where
  "lex_atom s =
     (if keyword ''None'' s then Some (PNone, drop 4 s)
      else if keyword ''True'' s then Some (PBool True, drop 4 s)
      else if keyword ''False'' s then Some (PBool False, drop 5 s)
      else
        let tok = takeWhile num_char s; rest = dropWhile num_char s
        in if int_text tok then Some (PInt (int_value tok), rest)
           else if float_text tok then Some (PFloat tok, rest)
           else None)"

text \<open>\<^verbatim>\<open>d[k] = v\<close>: a key already there keeps its place and takes the new value.\<close>

fun dict_set :: "(string \<times> pyval) list \<Rightarrow> string \<Rightarrow> pyval \<Rightarrow> (string \<times> pyval) list" where
  "dict_set [] k v = [(k, v)]"
| "dict_set ((k', v') # d) k v = (if k' = k then (k, v) # d else (k', v') # dict_set d k v)"

text \<open>
  The parser reads a value, the rest of a run of adjacent string literals (which Python
  concatenates), the items left of a list display, or the items left of a dictionary
  display; the mode carries what has been read of it. It is one recursive function that may
  not return; not returning is the value \<open>None\<close>, as is every syntax error.
\<close>

datatype mode = MValue | MStr string | MList "pyval list" | MDict "(string \<times> pyval) list"

definition is_quote :: "char \<Rightarrow> bool" where
  "is_quote c = (c = CHR 0x27 \<or> c = CHR 0x22)"

partial_function (option) parse :: "mode \<Rightarrow> string \<Rightarrow> (pyval \<times> string) option" where
  "parse m s =
     (case m of
        MValue \<Rightarrow>
          (case skip_ws s of
             [] \<Rightarrow> None
           | c # r \<Rightarrow>
               if c = CHR ''{'' then
                 (case skip_ws r of
                    [] \<Rightarrow> None
                  | d # r' \<Rightarrow> if d = CHR ''}'' then Some (PDict [], r') else parse (MDict []) r)
               else if c = CHR ''['' then
                 (case skip_ws r of
                    [] \<Rightarrow> None
                  | d # r' \<Rightarrow> if d = CHR '']'' then Some (PList [], r') else parse (MList []) r)
               else if c = CHR ''('' then
                 Option.bind (parse MValue r)
                   (\<lambda>(v, r'). case skip_ws r' of
                                [] \<Rightarrow> None
                              | d # r'' \<Rightarrow> if d = CHR '')'' then Some (v, r'') else None)
               else if is_quote c then parse (MStr []) (c # r)
               else lex_atom (c # r))
      | MStr acc \<Rightarrow>
          (case skip_ws s of
             [] \<Rightarrow> Some (PStr acc, s)
           | c # r \<Rightarrow>
               if is_quote c then
                 (case lex_str_body c r of
                    None \<Rightarrow> None
                  | Some (x, r') \<Rightarrow> parse (MStr (acc @ x)) r')
               else Some (PStr acc, s))
      | MList acc \<Rightarrow>
          Option.bind (parse MValue s)
            (\<lambda>(v, r). case skip_ws r of
                         [] \<Rightarrow> None
                       | c # r' \<Rightarrow>
                           if c = CHR '','' then
                             (case skip_ws r' of
                                [] \<Rightarrow> None
                              | d # r'' \<Rightarrow> if d = CHR '']'' then Some (PList (acc @ [v]), r'')
                                          else parse (MList (acc @ [v])) r')
                           else if c = CHR '']'' then Some (PList (acc @ [v]), r')
                           else None)
      | MDict acc \<Rightarrow>
          Option.bind (parse MValue s)
            (\<lambda>(key, r). case key of
                 PStr k \<Rightarrow>
                   (case skip_ws r of
                      [] \<Rightarrow> None
                    | c # r' \<Rightarrow>
                        if c = CHR '':'' then
                          Option.bind (parse MValue r')
                            (\<lambda>(v, r2). case skip_ws r2 of
                                 [] \<Rightarrow> None
                               | d # r3 \<Rightarrow>
                                   if d = CHR '','' then
                                     (case skip_ws r3 of
                                        [] \<Rightarrow> None
                                      | e # r4 \<Rightarrow>
                                          if e = CHR ''}'' then Some (PDict (dict_set acc k v), r4)
                                          else parse (MDict (dict_set acc k v)) r3)
                                   else if d = CHR ''}'' then Some (PDict (dict_set acc k v), r3)
                                   else None)
                        else None)
               | _ \<Rightarrow> None))"

declare parse.simps [code]

text \<open>The whole text is one literal.\<close>

definition decode :: "string \<Rightarrow> pyval option" where
  "decode s =
     (case parse MValue s of
        Some (v, rest) \<Rightarrow> if skip_ws rest = [] then Some v else None
      | None \<Rightarrow> None)"

text \<open>
  The value the interpreter builds from the literal of a tree: the same tree with the items
  of every dictionary in the order of their keys, which is the order of the text.
\<close>

fun canon :: "pyval \<Rightarrow> pyval" where
  "canon (PDict kvs) = PDict (map (\<lambda>(k, v). (k, canon v)) (sort_key fst kvs))"
| "canon (PList xs) = PList (map canon xs)"
| "canon t = t"

text \<open>Every float of the tree is finite: its text is a float literal.\<close>

fun finite_floats :: "pyval \<Rightarrow> bool" where
  "finite_floats (PFloat r) = float_text r"
| "finite_floats (PDict kvs) = (\<forall>v \<in> set (map snd kvs). finite_floats v)"
| "finite_floats (PList xs) = (\<forall>v \<in> set xs. finite_floats v)"
| "finite_floats _ = True"

section \<open>Notions of the specification\<close>

text \<open>The namespace and the symbol of a dotted path: the text before and after its last dot.\<close>

definition namespace_part :: "string \<Rightarrow> string" where
  "namespace_part p = rev (tl (dropWhile (\<lambda>c. c \<noteq> CHR ''.'') (rev p)))"

definition symbol_part :: "string \<Rightarrow> string" where
  "symbol_part p = rev (takeWhile (\<lambda>c. c \<noteq> CHR ''.'') (rev p))"



definition root_provider :: "pyval \<Rightarrow> string option" where
  "root_provider spec =
     (case spec of
        PDict kvs \<Rightarrow> (case map_of kvs ''provider'' of Some (PStr p) \<Rightarrow> Some p | _ \<Rightarrow> None)
      | _ \<Rightarrow> None)"



text \<open>
  Two trees are equal as Python values: scalars are the same, lists agree entry by entry,
  and dictionaries have the same keys with equal values under each key, in whatever order
  the keys were inserted.
\<close>

definition is_container :: "pyval \<Rightarrow> bool" where
  "is_container t = (case t of PList xs \<Rightarrow> True | PDict kvs \<Rightarrow> True | _ \<Rightarrow> False)"

inductive same_map :: "pyval \<Rightarrow> pyval \<Rightarrow> bool" where
  scalars: "\<not> is_container t \<Longrightarrow> same_map t t"
| lists: "list_all2 same_map xs ys \<Longrightarrow> same_map (PList xs) (PList ys)"
| dicts: "distinct (map fst kvs1) \<Longrightarrow> distinct (map fst kvs2) \<Longrightarrow>
          set (map fst kvs1) = set (map fst kvs2) \<Longrightarrow>
          (\<And>k v1 v2. (k, v1) \<in> set kvs1 \<Longrightarrow> (k, v2) \<in> set kvs2 \<Longrightarrow> same_map v1 v2) \<Longrightarrow>
          same_map (PDict kvs1) (PDict kvs2)"

text \<open>The examples of the specification.\<close>

definition example_A :: pyval where
  "example_A =
     PDict [(''provider'', PStr ''ns.TeamX''),
            (''config'', PDict [(''name'', PStr ''t1''),
                                (''members'', PList [PDict [(''provider'', PStr ''ns.AgentY''),
                                                            (''config'', PDict [(''name'', PStr ''a1'')])]])])]"

definition example_C :: pyval where
  "example_C = PDict [(''provider'', PStr []), (''config'', PDict [])]"

section \<open>Properties\<close>

subsection \<open>The printer, case by case\<close>

lemma format_PList:
  "format (PList xs) i a l =
     (if int (length (safe_repr (PList xs))) > 88 - int i - int a
      then pprint_list format xs i a (l + 1) else safe_repr (PList xs))"
  by (simp add: format.simps[of "PList xs"] Let_def del: safe_repr.simps)

lemma format_PDict:
  "format (PDict kvs) i a l =
     (if int (length (safe_repr (PDict kvs))) > 88 - int i - int a
      then pprint_dict format kvs i a (l + 1) else safe_repr (PDict kvs))"
  by (simp add: format.simps[of "PDict kvs"] Let_def del: safe_repr.simps)

lemma format_PStr:
  "format (PStr s) i a l =
     (if int (length (repr_str s)) > 88 - int i - int a
      then pprint_str s i a (l + 1) else repr_str s)"
  by (simp add: format.simps[of "PStr s"] Let_def)

lemma format_scalar:
  "format PNone i a l = ''None''"
  "format (PBool b) i a l = (if b then ''True'' else ''False'')"
  "format (PInt n) i a l = repr_int n"
  "format (PFloat r) i a l = r"
  "format (POther tn r) i a l = r"
  by (simp_all add: format.simps Let_def)

subsection \<open>Resolving a provider\<close>

lemma split_provider_dot:
  "CHR ''.'' \<in> set p \<Longrightarrow> split_provider (PStr p) = Inr (namespace_part p, symbol_part p)"
  by (simp add: split_provider_def rsplit_dot1_def namespace_part_def symbol_part_def)

lemma split_provider_nodot:
  "CHR ''.'' \<notin> set p \<Longrightarrow> split_provider (PStr p) = Inl (ValueError unpack_msg)"
  by (simp add: split_provider_def rsplit_dot1_def)




subsection \<open>The traversal\<close>

lemma fold_collect_union:
  assumes "\<And>v b. v \<in> set vs \<Longrightarrow> f v b = b \<union> g v"
  shows "fold f vs b = b \<union> (\<Union>v \<in> set vs. g v)"
  using assms by (induction vs arbitrary: b) auto

lemma under_provider_PDict:
  "under_provider (PDict kvs) s \<longleftrightarrow>
     (''provider'', PStr s) \<in> set kvs \<or> (\<exists>v \<in> snd ` set kvs. under_provider v s)"
proof
  assume "under_provider (PDict kvs) s"
  then show "(''provider'', PStr s) \<in> set kvs \<or> (\<exists>v \<in> snd ` set kvs. under_provider v s)"
    by cases force+
next
  assume "(''provider'', PStr s) \<in> set kvs \<or> (\<exists>v \<in> snd ` set kvs. under_provider v s)"
  then show "under_provider (PDict kvs) s"
    by (auto intro: under_provider.intros)
qed

lemma under_provider_PList:
  "under_provider (PList xs) s \<longleftrightarrow> (\<exists>v \<in> set xs. under_provider v s)"
  by (auto elim: under_provider.cases intro: under_provider.intros)

lemma under_provider_scalar:
  "\<not> under_provider PNone s" "\<not> under_provider (PBool b) s" "\<not> under_provider (PInt i) s"
  "\<not> under_provider (PFloat r) s" "\<not> under_provider (PStr x) s" "\<not> under_provider (POther tn r) s"
  by (auto elim: under_provider.cases)

lemma provider_bag:
  assumes "distinct (map fst kvs)"
  shows "(case map_of kvs ''provider'' of Some (PStr prov) \<Rightarrow> insert prov bag | _ \<Rightarrow> bag)
         = bag \<union> {s. (''provider'', PStr s) \<in> set kvs}"
proof (cases "map_of kvs ''provider''")
  case None
  then have "\<And>v. (''provider'', v) \<notin> set kvs"
    by (metis assms map_of_is_SomeI option.distinct(1))
  with None show ?thesis by auto
next
  case (Some v)
  then have "\<And>w. (''provider'', w) \<in> set kvs \<longleftrightarrow> w = v"
    by (metis assms map_of_is_SomeI map_of_SomeD option.inject)
  with Some show ?thesis by (cases v) auto
qed

lemma collect_providers_bag:
  "distinct_keys t \<Longrightarrow> collect_providers t bag = bag \<union> {s. under_provider t s}"
proof (induction t arbitrary: bag)
  case (PList xs)
  have "fold (\<lambda>v b. collect_providers v b) xs bag = bag \<union> (\<Union>v \<in> set xs. {s. under_provider v s})"
    using PList by (intro fold_collect_union) auto
  then show ?case by (auto simp: under_provider_PList)
next
  case (PDict kvs)
  let ?b = "case map_of kvs ''provider'' of Some (PStr prov) \<Rightarrow> insert prov bag | _ \<Rightarrow> bag"
  have d: "distinct (map fst kvs)" using PDict.prems by simp
  have "fold (\<lambda>v b. collect_providers v b) (map snd kvs) ?b
        = ?b \<union> (\<Union>v \<in> set (map snd kvs). {s. under_provider v s})"
  proof (intro fold_collect_union)
    fix v b assume "v \<in> set (map snd kvs)"
    then obtain k where kv: "(k, v) \<in> set kvs" by auto
    have "distinct_keys v" using PDict.prems kv by force
    with PDict.IH[of "(k, v)" v] kv show "collect_providers v b = b \<union> {s. under_provider v s}"
      by simp
  qed
  moreover have "?b = bag \<union> {s. (''provider'', PStr s) \<in> set kvs}"
    by (rule provider_bag[OF d])
  ultimately show ?case by (auto simp: under_provider_PDict)
qed (auto simp: under_provider_scalar)

lemma collect_providers_mono: "bag \<subseteq> collect_providers t bag"
proof (induction t arbitrary: bag)
  case (PList xs)
  have "\<And>b. set ys \<subseteq> set xs \<Longrightarrow> b \<subseteq> fold (\<lambda>v b. collect_providers v b) ys b" for ys
  proof (induction ys)
    case (Cons y ys)
    have "b \<subseteq> collect_providers y b" using PList Cons.prems by simp
    also have "\<dots> \<subseteq> fold (\<lambda>v b. collect_providers v b) ys (collect_providers y b)"
      using Cons by simp
    finally show ?case by simp
  qed simp
  then show ?case by simp
next
  case (PDict kvs)
  have f: "\<And>b. set ys \<subseteq> snd ` set kvs \<Longrightarrow> b \<subseteq> fold (\<lambda>v b. collect_providers v b) ys b" for ys
  proof (induction ys)
    case (Cons y ys)
    from Cons.prems obtain k where "(k, y) \<in> set kvs" by auto
    then have "b \<subseteq> collect_providers y b" using PDict[of "(k, y)" y] by simp
    also have "\<dots> \<subseteq> fold (\<lambda>v b. collect_providers v b) ys (collect_providers y b)"
      using Cons by simp
    finally show ?case by simp
  qed simp
  let ?b = "case map_of kvs ''provider'' of Some (PStr prov) \<Rightarrow> insert prov bag | _ \<Rightarrow> bag"
  have "bag \<subseteq> ?b" by (auto split: option.splits pyval.splits)
  also have "?b \<subseteq> fold (\<lambda>v b. collect_providers v b) (map snd kvs) ?b"
    by (rule f) simp
  finally show ?case by simp
qed simp_all

lemma root_provider_collected:
  assumes "map_of kvs ''provider'' = Some (PStr p)"
  shows "p \<in> collect_providers (PDict kvs) bag"
proof -
  have "insert p bag \<subseteq> fold (\<lambda>v b. collect_providers v b) (map snd kvs) (insert p bag)"
    using collect_providers_mono[of "insert p bag" "PList (map snd kvs)"] by simp
  then show ?thesis using assms by auto
qed

text \<open>
  Claim C4. For a tree whose dictionaries hold each key once (every Python dictionary
  does), \<^verbatim>\<open>collect_providers\<close> called without a bag returns exactly the strings that
  are the value of a key \<^verbatim>\<open>"provider"\<close> of some dictionary of the tree, at any depth
  below maps and lists. A value under \<^verbatim>\<open>"provider"\<close> that is no string is not
  recorded: \<open>under_provider\<close> has a rule for strings only.
\<close>

theorem collect_providers_exact:
  assumes "distinct_keys t"
  shows "collect_providers t {} = {s. under_provider t s}"
  using collect_providers_bag[OF assms, of "{}"] by simp

theorem collect_providers_exact_witness:
  "{s. under_provider example_A s} = {''ns.TeamX'', ''ns.AgentY''}"
proof -
  have d: "distinct_keys example_A" by (simp add: example_A_def)
  have "collect_providers example_A {} = {''ns.TeamX'', ''ns.AgentY''}"
    by (simp add: example_A_def insert_commute)
  with collect_providers_exact[OF d] show ?thesis by simp
qed

subsection \<open>The emitter\<close>

lemma emit_builder_fallback:
  assumes "map_of kvs ''provider'' = Some (PStr p)" and "CHR ''.'' \<in> set p" and "ctors p = None"
  shows "emit_builder fmt ctors (PDict kvs) var imports =
           (Inr (var @ '' = '' @ symbol_part p @ ''.load_component(''
                 @ dict_to_python_literal (PDict kvs) @ '')''),
            insert (namespace_part p, symbol_part p) imports)"
  using assms by (simp add: emit_builder_def split_provider_dot)

lemma emit_builder_ctors_cong:
  assumes "\<forall>p. root_provider spec = Some p \<longrightarrow> ctors1 p = ctors2 p"
  shows "emit_builder fmt ctors1 spec var imports = emit_builder fmt ctors2 spec var imports"
proof (cases spec)
  case (PDict kvs)
  show ?thesis
  proof (cases "map_of kvs ''provider''")
    case None
    then show ?thesis by (simp add: emit_builder_def PDict)
  next
    case (Some v)
    then show ?thesis using assms
      by (cases v) (auto simp: emit_builder_def PDict root_provider_def Let_def split: sum.splits)
  qed
qed (simp_all add: emit_builder_def)



text \<open>
  Claim C3, as stated, fails for a provider string without a dot: the provider
  \<^verbatim>\<open>"abc"\<close> has no template, and \<^verbatim>\<open>emit_builder\<close> raises ValueError instead of
  returning a statement.
\<close>

theorem separatorless_provider_raises:
  "emit_builder (\<lambda>tpl var cfg. Inr tpl) EXPLICIT_CTORS (PDict [(''provider'', PStr ''abc'')]) ''team'' {}
     = (Inl (ValueError unpack_msg), {})"
  by (simp add: emit_builder_def split_provider_def rsplit_dot1_def)

text \<open>
  Claim C3, amended. For every root map whose provider is a string with at least one dot
  and without a template, \<^verbatim>\<open>emit_builder\<close> returns the one assignment statement
  \<^verbatim>\<open>var = <symbol>.load_component(<literal>)\<close>, where the literal renders the whole root
  node and the symbol is the text after the last dot of the provider; the pair of namespace
  and symbol is added to the import set.
\<close>

theorem fallback_statement:
  assumes "map_of kvs ''provider'' = Some (PStr p)" and "CHR ''.'' \<in> set p" and "ctors p = None"
  shows "emit_builder fmt ctors (PDict kvs) var imports =
           (Inr (var @ '' = '' @ symbol_part p @ ''.load_component(''
                 @ dict_to_python_literal (PDict kvs) @ '')''),
            insert (namespace_part p, symbol_part p) imports)"
  using assms by (rule emit_builder_fallback)

theorem fallback_statement_witness:
  "emit_builder (\<lambda>tpl var cfg. Inr tpl) EXPLICIT_CTORS example_A ''team'' {} =
     (Inr (''team = TeamX.load_component('' @ dict_to_python_literal example_A @ '')''),
      {(''ns'', ''TeamX'')})"
  using fallback_statement[of "[(''provider'', PStr ''ns.TeamX''),
            (''config'', PDict [(''name'', PStr ''t1''),
                                (''members'', PList [PDict [(''provider'', PStr ''ns.AgentY''),
                                                            (''config'', PDict [(''name'', PStr ''a1'')])]])])]"
          "''ns.TeamX''" EXPLICIT_CTORS "\<lambda>tpl var cfg. Inr tpl" "''team''" "{}"]
  by (simp add: example_A_def EXPLICIT_CTORS_def symbol_part_def namespace_part_def)

text \<open>
  Claim C2, as stated, fails: an empty provider string below the root is collected by the
  traversal and the run succeeds.
\<close>

theorem nested_empty_provider_accepted:
  "[] \<in> collect_providers
           (PDict [(''provider'', PStr ''a.B''), (''config'', PDict [(''provider'', PStr [])])]) {} \<and>
   \<not> isl (generate_python_from_json ''team-config.json''
           (PDict [(''provider'', PStr ''a.B''), (''config'', PDict [(''provider'', PStr [])])]))"
  by (simp add: generate_python_from_json_def generate_content_def emit_builder_def
        split_provider_def rsplit_dot1_def EXPLICIT_CTORS_def)

text \<open>
  Claim C2, amended. The traversal records every provider string and never fails. Only the
  provider of the root is resolved: when it is a string without a dot (the empty string
  included), \<^verbatim>\<open>emit_builder\<close> raises ValueError (not enough values to unpack) with the
  import set untouched, and the run ends with that error and no output. The witness is the
  specification's example C.
\<close>

theorem unresolvable_root_provider:
  assumes "map_of kvs ''provider'' = Some (PStr p)" and "CHR ''.'' \<notin> set p"
  shows "p \<in> collect_providers (PDict kvs) {} \<and>
         emit_builder fmt ctors (PDict kvs) var imports = (Inl (ValueError unpack_msg), imports) \<and>
         generate_content fmt ctors name (PDict kvs) = Inl (ValueError unpack_msg)"
  using assms root_provider_collected[OF assms(1)]
  by (simp add: emit_builder_def generate_content_def split_provider_nodot)

theorem unresolvable_root_provider_witness:
  "[] \<in> collect_providers example_C {} \<and>
   emit_builder (\<lambda>tpl var cfg. Inr tpl) EXPLICIT_CTORS example_C ''team'' {}
     = (Inl (ValueError unpack_msg), {}) \<and>
   generate_python_from_json ''team-config.json'' example_C = Inl (ValueError unpack_msg)"
  using unresolvable_root_provider[of "[(''provider'', PStr []), (''config'', PDict [])]" "[]"
           "\<lambda>tpl var cfg. Inr tpl" EXPLICIT_CTORS "''team''" "{}" "''team-config.json''"]
  by (simp add: example_C_def generate_python_from_json_def)




subsection \<open>The generated file\<close>

lemma split_nl_line:
  "CHR 0x0A \<notin> set s \<Longrightarrow> split_nl cur (s @ CHR 0x0A # rest) = (cur @ s) # split_nl [] rest"
  by (induction s arbitrary: cur) auto

lemma split_nl_last:
  "CHR 0x0A \<notin> set s \<Longrightarrow> split_nl cur s = [cur @ s]"
  by (induction s arbitrary: cur) auto

lemma run_block_text:
  "run_block =
     ''import asyncio'' @ [CHR 0x0A] @
     [CHR 0x0A] @
     ''async def main():'' @ [CHR 0x0A] @
     ''    # '' @ [CHR 0x27] @ ''team'' @ [CHR 0x27] @
       '' is constructed above. Provide any task you want to run:'' @ [CHR 0x0A] @
     ''    result = await team.run(task='' @ [CHR 0x22] @
       ''Say hello (generated code).'' @ [CHR 0x22] @ '')'' @ [CHR 0x0A] @
     ''    print(result)'' @ [CHR 0x0A] @
     [CHR 0x0A] @
     ''if __name__ == '' @ [CHR 0x22] @ ''__main__'' @ [CHR 0x22] @ '':'' @ [CHR 0x0A] @
     ''    asyncio.run(main())''"
  by code_simp

lemma header_text:
  assumes "CHR 0x0A \<notin> set name"
  shows "header name =
     ''# This file was generated from: '' @ name @ [CHR 0x0A] @
     ''# It reconstructs your AutoGen 0.4.x configuration in pure Python.'' @ [CHR 0x0A] @
     ''# You can now edit it freely (no JSON needed at runtime).''"
proof -
  let ?A = "''        # This file was generated from: ''"
  let ?B = "''        # It reconstructs your AutoGen 0.4.x configuration in pure Python.''"
  let ?C = "''        # You can now edit it freely (no JSON needed at runtime).''"
  have 1: "split_nl [] (?A @ name @ [CHR 0x0A] @ ?B @ [CHR 0x0A] @ ?C @ [CHR 0x0A] @ ''        '')
           = [?A @ name, ?B, ?C, ''        '']"
    using assms split_nl_line[of "?A @ name" "[]"] by (simp add: split_nl_line split_nl_last)
  show ?thesis
    unfolding header_def dedent_def 1
    by (simp add: blank_char_def starts_with_def rstrip_def py_isspace_def)
qed

lemma by_module_single: "by_module {(m, c)} = [(m, {c})]"
proof -
  have "snd ` Set.filter (\<lambda>p. fst p = m) {(m, c)} = {c}" by auto
  then show ?thesis by (simp add: by_module_def del: Set.filter_eq)
qed

lemma import_lines_single:
  "import_lines {(m, c)} = [''from '' @ m @ '' import '' @ c]"
  by (simp add: import_lines_def by_module_single)


lemma generate_content_success:
  assumes "generate_content fmt ctors name spec = Inr content"
  obtains p body where "root_provider spec = Some p" and "CHR ''.'' \<in> set p"
    and "emit_builder fmt ctors spec ''team'' {} = (Inr body, {(namespace_part p, symbol_part p)})"
    and "content = join [CHR 0x0A, CHR 0x0A]
           ([header name] @ import_lines {(namespace_part p, symbol_part p)}
            @ [[], body, [], run_block, []])"
proof -
  obtain kvs where spec: "spec = PDict kvs"
    using assms by (cases spec) (auto simp: generate_content_def emit_builder_def)
  obtain v where v: "map_of kvs ''provider'' = Some v"
    using assms by (cases "map_of kvs ''provider''") (auto simp: generate_content_def emit_builder_def spec)
  obtain p where p: "v = PStr p"
    using assms by (cases v) (auto simp: generate_content_def emit_builder_def spec v split_provider_def)
  have dot: "CHR ''.'' \<in> set p"
    using assms by (cases "CHR ''.'' \<in> set p")
      (auto simp: generate_content_def emit_builder_def spec v p split_provider_nodot)
  have rp: "root_provider spec = Some p" by (simp add: root_provider_def spec v p)
  have "snd (emit_builder fmt ctors spec ''team'' {}) = {(namespace_part p, symbol_part p)}"
    by (cases "ctors p") (auto simp: emit_builder_def spec v p split_provider_dot[OF dot] Let_def)
  then obtain r where r: "emit_builder fmt ctors spec ''team'' {} = (r, {(namespace_part p, symbol_part p)})"
    by (cases "emit_builder fmt ctors spec ''team'' {}") auto
  obtain body where b: "r = Inr body"
    using assms r by (cases r) (auto simp: generate_content_def)
  show ?thesis
    using that[OF rp dot r[unfolded b]] assms r b by (simp add: generate_content_def)
qed

text \<open>
  Claim C6. Two runs whose template tables agree at the provider string of the root produce
  the same result, whatever the tables hold for other provider strings. The witness is the
  specification's example B: a template for the nested \<^verbatim>\<open>ns.AgentY\<close> changes nothing
  for the root \<^verbatim>\<open>ns.TeamX\<close>.
\<close>

theorem template_lookup_root_only:
  assumes "\<forall>p. root_provider spec = Some p \<longrightarrow> ctors1 p = ctors2 p"
  shows "generate_content fmt ctors1 name spec = generate_content fmt ctors2 name spec"
  by (simp add: generate_content_def emit_builder_ctors_cong[OF assms])

theorem template_lookup_root_only_witness:
  "generate_content (\<lambda>tpl var cfg. Inr tpl) Map.empty ''team-config.json'' example_A =
   generate_content (\<lambda>tpl var cfg. Inr tpl) [''ns.AgentY'' \<mapsto> ''{var} = AgentY()'']
     ''team-config.json'' example_A"
  using template_lookup_root_only[of example_A Map.empty "[''ns.AgentY'' \<mapsto> ''{var} = AgentY()'']"
          "\<lambda>tpl var cfg. Inr tpl" "''team-config.json''"]
  by (simp add: root_provider_def example_A_def)

text \<open>
  Claim C9. The text of every successful run is, in this order: the header, which names the
  source document (spelled out for a name without a newline); the import statement of the
  root's namespace; blank lines; the body code; blank lines; the runner; a final blank line.
  The runner is one constant text: it awaits \<^verbatim>\<open>team.run\<close> on a constant task and
  prints the result.
\<close>

theorem generated_file_layout:
  assumes "generate_content fmt ctors name spec = Inr content"
  shows "(\<exists>p body.
            root_provider spec = Some p \<and>
            emit_builder fmt ctors spec ''team'' {}
              = (Inr body, {(namespace_part p, symbol_part p)}) \<and>
            content =
              header name @ [CHR 0x0A, CHR 0x0A]
              @ ''from '' @ namespace_part p @ '' import '' @ symbol_part p @ [CHR 0x0A, CHR 0x0A]
              @ [CHR 0x0A, CHR 0x0A]
              @ body @ [CHR 0x0A, CHR 0x0A]
              @ [CHR 0x0A, CHR 0x0A]
              @ run_block @ [CHR 0x0A, CHR 0x0A]) \<and>
         (CHR 0x0A \<notin> set name \<longrightarrow>
            header name =
              ''# This file was generated from: '' @ name @ [CHR 0x0A] @
              ''# It reconstructs your AutoGen 0.4.x configuration in pure Python.'' @ [CHR 0x0A] @
              ''# You can now edit it freely (no JSON needed at runtime).'') \<and>
         run_block =
           ''import asyncio'' @ [CHR 0x0A] @
           [CHR 0x0A] @
           ''async def main():'' @ [CHR 0x0A] @
           ''    # '' @ [CHR 0x27] @ ''team'' @ [CHR 0x27] @
             '' is constructed above. Provide any task you want to run:'' @ [CHR 0x0A] @
           ''    result = await team.run(task='' @ [CHR 0x22] @
             ''Say hello (generated code).'' @ [CHR 0x22] @ '')'' @ [CHR 0x0A] @
           ''    print(result)'' @ [CHR 0x0A] @
           [CHR 0x0A] @
           ''if __name__ == '' @ [CHR 0x22] @ ''__main__'' @ [CHR 0x22] @ '':'' @ [CHR 0x0A] @
           ''    asyncio.run(main())''"
proof (intro conjI impI)
  from assms obtain p body where "root_provider spec = Some p"
    and "emit_builder fmt ctors spec ''team'' {} = (Inr body, {(namespace_part p, symbol_part p)})"
    and "content = join [CHR 0x0A, CHR 0x0A]
           ([header name] @ import_lines {(namespace_part p, symbol_part p)}
            @ [[], body, [], run_block, []])"
    by (rule generate_content_success)
  then show "\<exists>p body.
            root_provider spec = Some p \<and>
            emit_builder fmt ctors spec ''team'' {}
              = (Inr body, {(namespace_part p, symbol_part p)}) \<and>
            content =
              header name @ [CHR 0x0A, CHR 0x0A]
              @ ''from '' @ namespace_part p @ '' import '' @ symbol_part p @ [CHR 0x0A, CHR 0x0A]
              @ [CHR 0x0A, CHR 0x0A]
              @ body @ [CHR 0x0A, CHR 0x0A]
              @ [CHR 0x0A, CHR 0x0A]
              @ run_block @ [CHR 0x0A, CHR 0x0A]"
    by (intro exI[of _ p] exI[of _ body]) (simp add: import_lines_single)
qed (simp_all add: header_text run_block_text)

theorem generated_file_layout_witness:
  "\<exists>body.
     emit_builder (\<lambda>tpl var cfg. Inr tpl) EXPLICIT_CTORS example_A ''team'' {}
       = (Inr body, {(''ns'', ''TeamX'')}) \<and>
     generate_python_from_json ''team-config.json'' example_A =
       Inr (header ''team-config.json'' @ [CHR 0x0A, CHR 0x0A]
            @ ''from ns import TeamX'' @ [CHR 0x0A, CHR 0x0A]
            @ [CHR 0x0A, CHR 0x0A]
            @ body @ [CHR 0x0A, CHR 0x0A]
            @ [CHR 0x0A, CHR 0x0A]
            @ run_block @ [CHR 0x0A, CHR 0x0A])"
proof -
  let ?F = "\<lambda>(tpl :: string) (var :: string) (cfg :: pyval). (Inr tpl :: error + string)"
  obtain content where c: "generate_content ?F EXPLICIT_CTORS ''team-config.json'' example_A = Inr content"
    by (simp add: generate_content_def emit_builder_def example_A_def EXPLICIT_CTORS_def
          split_provider_def rsplit_dot1_def)
  have rp: "root_provider example_A = Some ''ns.TeamX''"
    by (simp add: root_provider_def example_A_def)
  have parts: "namespace_part ''ns.TeamX'' = ''ns''" "symbol_part ''ns.TeamX'' = ''TeamX''"
    by (simp_all add: namespace_part_def symbol_part_def)
  from generated_file_layout[OF c] rp parts c show ?thesis
    by (auto simp: generate_python_from_json_def)
qed




subsection \<open>Independence of the insertion order\<close>

lemma distinct_map_sort_key:
  "distinct (map f (sort_key g xs)) \<longleftrightarrow> distinct (map f xs)"
proof -
  have "distinct (map f ys) \<longleftrightarrow> card (f ` set ys) = length ys" for ys
    using distinct_card[of "map f ys"] card_distinct[of "map f ys"] by auto
  then show ?thesis by simp
qed

lemma sorted_keys_unique:
  assumes "distinct (map fst kvs1)" "distinct (map fst kvs2)"
    and "set (map fst kvs1) = set (map fst kvs2)"
  shows "map fst (sort_key fst kvs1) = map fst (sort_key fst kvs2)"
  using assms
  by (intro sorted_distinct_set_unique) (simp_all add: distinct_map_sort_key)

lemma same_keys_list_all2:
  assumes "map fst xs = map fst ys"
    and "\<And>k v1 v2. (k, v1) \<in> set xs \<Longrightarrow> (k, v2) \<in> set ys \<Longrightarrow> Q v1 v2"
  shows "list_all2 (\<lambda>x y. fst x = fst y \<and> Q (snd x) (snd y)) xs ys"
  using assms
proof (induction xs arbitrary: ys)
  case Nil
  then show ?case by simp
next
  case (Cons x xs)
  then obtain y ys' where ys: "ys = y # ys'" by (cases ys) auto
  have "fst x = fst y" using Cons.prems(1) ys by simp
  moreover have "Q (snd x) (snd y)"
  proof (rule Cons.prems(2)[of "fst x"])
    show "(fst x, snd x) \<in> set (x # xs)" by simp
    show "(fst x, snd y) \<in> set ys" using ys \<open>fst x = fst y\<close> by simp
  qed
  moreover have "list_all2 (\<lambda>x y. fst x = fst y \<and> Q (snd x) (snd y)) xs ys'"
    using Cons.prems ys by (intro Cons.IH) auto
  ultimately show ?case using ys by simp
qed

lemma dict_items_loop_all2:
  assumes "list_all2 (\<lambda>x y. fst x = fst y \<and> (\<forall>i a l. f (snd x) i a l = g (snd y) i a l)) xs ys"
  shows "dict_items_loop f xs indent allowance level = dict_items_loop g ys indent allowance level"
  using assms
proof (induction xs ys arbitrary: indent allowance level rule: list_all2_induct)
  case Nil
  then show ?case by simp
next
  case (Cons x xs y ys)
  obtain k v where x: "x = (k, v)" by (cases x)
  obtain k' w where y: "y = (k', w)" by (cases y)
  have e: "(xs = []) = (ys = [])" using Cons.hyps(2) by (auto dest: list_all2_lengthD)
  show ?case using Cons.hyps(1) Cons.IH by (simp add: x y Let_def e)
qed

lemma items_loop_all2:
  assumes "list_all2 (\<lambda>x y. \<forall>i a l. f x i a l = g y i a l) xs ys"
  shows "items_loop f xs indent allowance level = items_loop g ys indent allowance level"
  using assms
proof (induction xs ys arbitrary: indent allowance level rule: list_all2_induct)
  case Nil
  then show ?case by simp
next
  case (Cons x xs y ys)
  have e: "(xs = []) = (ys = [])" using Cons.hyps(2) by (auto dest: list_all2_lengthD)
  show ?case using Cons.hyps(1) Cons.IH by (simp add: Let_def e)
qed

lemma map_all2_eq:
  assumes "list_all2 (\<lambda>x y. f x = g y) xs ys"
  shows "map f xs = map g ys"
  using assms by (induction xs ys rule: list_all2_induct) simp_all

lemma same_map_render:
  assumes "same_map t1 t2"
  shows "safe_repr t1 = safe_repr t2 \<and> (\<forall>i a l. format t1 i a l = format t2 i a l)"
  using assms
proof (induction rule: same_map.induct)
  case (scalars t)
  then show ?case by simp
next
  case (lists xs ys)
  have r: "map safe_repr xs = map safe_repr ys"
    using lists by (intro map_all2_eq) (auto elim: list_all2_mono)
  have e: "(xs = []) = (ys = [])" using lists by (auto dest: list_all2_lengthD)
  have sr: "safe_repr (PList xs) = safe_repr (PList ys)" using r e by simp
  have "items_loop format xs i a l = items_loop format ys i a l" for i a l
    using lists by (intro items_loop_all2) (auto elim: list_all2_mono)
  then have "format (PList xs) i a l = format (PList ys) i a l" for i a l
    unfolding format_PList sr by (simp add: pprint_list_def format_items_def)
  with sr show ?case by simp
next
  case (dicts kvs1 kvs2)
  let ?s1 = "sort_key fst kvs1" and ?s2 = "sort_key fst kvs2"
  have k: "map fst ?s1 = map fst ?s2"
    using dicts(1-3) by (rule sorted_keys_unique)
  have all2: "list_all2 (\<lambda>x y. fst x = fst y \<and>
                 (safe_repr (snd x) = safe_repr (snd y) \<and>
                  (\<forall>i a l. format (snd x) i a l = format (snd y) i a l))) ?s1 ?s2"
    using k dicts(5) by (intro same_keys_list_all2) auto
  have e: "(kvs1 = []) = (kvs2 = [])" using dicts(3) by auto
  have r: "map (\<lambda>(k, v). repr_str k @ '': '' @ safe_repr v) ?s1
         = map (\<lambda>(k, v). repr_str k @ '': '' @ safe_repr v) ?s2"
    using all2 by (intro map_all2_eq) (auto elim!: list_all2_mono simp: case_prod_beta)
  have sr: "safe_repr (PDict kvs1) = safe_repr (PDict kvs2)" using r e by simp
  have "dict_items_loop format ?s1 i a l = dict_items_loop format ?s2 i a l" for i a l
    using all2 by (intro dict_items_loop_all2) (auto elim!: list_all2_mono)
  then have "format (PDict kvs1) i a l = format (PDict kvs2) i a l" for i a l
    unfolding format_PDict sr using e by (simp add: pprint_dict_def format_dict_items_def)
  with sr show ?case by simp
qed

lemma same_map_split_provider:
  assumes "same_map v1 v2"
  shows "split_provider v1 = split_provider v2"
  using assms by cases (simp_all add: split_provider_def)

lemma same_map_emit_builder:
  assumes "same_map t1 t2"
  shows "emit_builder fmt Map.empty t1 var imports = emit_builder fmt Map.empty t2 var imports"
  using assms
proof cases
  case (scalars)
  then show ?thesis by simp
next
  case (lists xs ys)
  then show ?thesis by (simp add: emit_builder_def)
next
  case (dicts kvs1 kvs2)
  have lit: "dict_to_python_literal t1 = dict_to_python_literal t2"
    using same_map_render[OF assms] by (simp add: dict_to_python_literal_def pformat_def)
  show ?thesis
  proof (cases "map_of kvs1 ''provider''")
    case None
    then have "map_of kvs2 ''provider'' = None"
      using dicts(5) by (simp add: map_of_eq_None_iff)
    with None show ?thesis by (simp add: emit_builder_def dicts(1,2))
  next
    case (Some v1)
    then have "''provider'' \<in> fst ` set kvs2"
      using dicts(5) by (metis map_of_eq_None_iff option.distinct(1) set_map)
    then obtain v2 where v2: "map_of kvs2 ''provider'' = Some v2"
      by (metis map_of_eq_None_iff not_Some_eq)
    have "same_map v1 v2"
      using dicts(6)[of "''provider''" v1 v2] Some v2 by (auto dest: map_of_SomeD)
    then have sp: "split_provider v1 = split_provider v2" by (rule same_map_split_provider)
    show ?thesis
      using lit sp Some v2 
      by (auto simp: emit_builder_def dicts(1,2) Let_def split: sum.splits pyval.splits)
  qed
qed

lemma dict_rendered_in_key_order:
  "safe_repr (PDict kvs) = safe_repr (PDict (sort_key fst kvs)) \<and>
   format (PDict kvs) i a l = format (PDict (sort_key fst kvs)) i a l"
proof -
  have s: "sort_key fst (sort_key fst kvs) = sort_key fst kvs"
    by (rule sort_key_id_if_sorted) simp
  have e: "(sort_key fst kvs = []) = (kvs = [])" by (metis set_sort set_empty)
  have r: "safe_repr (PDict kvs) = safe_repr (PDict (sort_key fst kvs))"
    by (simp add: s e)
  show ?thesis unfolding format_PDict r[symmetric] by (simp add: pprint_dict_def s e)
qed

text \<open>
  Claim C5. The printer sorts the items of every dictionary by key before it writes them, in
  the one-line form and in the wrapped form alike: a dictionary is written as the
  dictionary with its items in key order is. So two trees that are equal as Python values
  and differ only in the order their keys were inserted get the same literal, and the file
  generated from them is the same text.
\<close>

theorem key_order_insensitive:
  assumes "same_map t1 t2"
  shows "dict_to_python_literal t1 = dict_to_python_literal t2 \<and>
         generate_python_from_json name t1 = generate_python_from_json name t2 \<and>
         format (PDict kvs) i a l = format (PDict (sort_key fst kvs)) i a l \<and>
         sorted (map fst (sort_key fst kvs))"
  using same_map_render[OF assms] same_map_emit_builder[OF assms]
    dict_rendered_in_key_order[of kvs i a l]
  by (simp add: dict_to_python_literal_def pformat_def generate_python_from_json_def
        generate_content_def EXPLICIT_CTORS_def)

theorem key_order_insensitive_witness:
  "dict_to_python_literal
     (PDict [(''provider'', PStr ''ns.T''), (''config'', PDict [(''a'', PInt 1), (''b'', PInt 2)])]) =
   dict_to_python_literal
     (PDict [(''config'', PDict [(''b'', PInt 2), (''a'', PInt 1)]), (''provider'', PStr ''ns.T'')]) \<and>
   generate_python_from_json ''team-config.json''
     (PDict [(''provider'', PStr ''ns.T''), (''config'', PDict [(''a'', PInt 1), (''b'', PInt 2)])]) =
   generate_python_from_json ''team-config.json''
     (PDict [(''config'', PDict [(''b'', PInt 2), (''a'', PInt 1)]), (''provider'', PStr ''ns.T'')])"
proof -
  have s: "\<not> is_container (PInt i)" "\<not> is_container (PStr x)" for i x
    by (simp_all add: is_container_def)
  have inner: "same_map (PDict [(''a'', PInt 1), (''b'', PInt 2)]) (PDict [(''b'', PInt 2), (''a'', PInt 1)])"
    by (rule same_map.dicts) (auto intro: same_map.scalars[OF s(1)])
  have "same_map
     (PDict [(''provider'', PStr ''ns.T''), (''config'', PDict [(''a'', PInt 1), (''b'', PInt 2)])])
     (PDict [(''config'', PDict [(''b'', PInt 2), (''a'', PInt 1)]), (''provider'', PStr ''ns.T'')])"
    by (rule same_map.dicts) (auto intro: same_map.scalars[OF s(2)] inner)
  from key_order_insensitive[OF this, of "''team-config.json''" "[]" 0 0 0]
  show ?thesis by simp
qed

subsection \<open>The fallback literal read back\<close>

text \<open>
  \<open>renders txt v\<close>: the text is read as the value \<open>v\<close> whatever follows it, as long as
  what follows starts with a closing bracket, a comma or a colon, or is empty.
\<close>

definition stop :: "string \<Rightarrow> bool" where
  "stop rest = (case rest of [] \<Rightarrow> True | c # r \<Rightarrow> c \<in> set '',]})'' \<or> c = CHR '':'')"

definition renders :: "string \<Rightarrow> pyval \<Rightarrow> bool" where
  "renders txt v = (\<forall>rest. stop rest \<longrightarrow> parse MValue (txt @ rest) = Some (v, rest))"

lemma skip_ws_Nil [simp]: "skip_ws [] = []"
  by (simp add: skip_ws_def)

lemma skip_ws_Cons:
  "skip_ws (c # r) = (if py_blank c then skip_ws r else c # r)"
  by (simp add: skip_ws_def)

lemma skip_ws_blanks:
  "list_all py_blank w \<Longrightarrow> skip_ws (w @ s) = skip_ws s"
  by (induction w) (simp_all add: skip_ws_Cons)

lemma skip_ws_idem [simp]: "skip_ws (skip_ws s) = skip_ws s"
  by (induction s) (simp_all add: skip_ws_Cons)

lemma skip_ws_stop: "stop rest \<Longrightarrow> skip_ws rest = rest"
  by (cases rest) (auto simp: stop_def skip_ws_Cons py_blank_def)

lemma parse_MValue:
  "parse MValue s =
     (case skip_ws s of
        [] \<Rightarrow> None
      | c # r \<Rightarrow>
          if c = CHR ''{'' then
            (case skip_ws r of
               [] \<Rightarrow> None
             | d # r' \<Rightarrow> if d = CHR ''}'' then Some (PDict [], r') else parse (MDict []) r)
          else if c = CHR ''['' then
            (case skip_ws r of
               [] \<Rightarrow> None
             | d # r' \<Rightarrow> if d = CHR '']'' then Some (PList [], r') else parse (MList []) r)
          else if c = CHR ''('' then
            Option.bind (parse MValue r)
              (\<lambda>(v, r'). case skip_ws r' of
                           [] \<Rightarrow> None
                         | d # r'' \<Rightarrow> if d = CHR '')'' then Some (v, r'') else None)
          else if is_quote c then parse (MStr []) (c # r)
          else lex_atom (c # r))"
  by (subst parse.simps) simp

lemma parse_MStr:
  "parse (MStr acc) s =
     (case skip_ws s of
        [] \<Rightarrow> Some (PStr acc, s)
      | c # r \<Rightarrow>
          if is_quote c then
            (case lex_str_body c r of
               None \<Rightarrow> None
             | Some (x, r') \<Rightarrow> parse (MStr (acc @ x)) r')
          else Some (PStr acc, s))"
  by (subst parse.simps) simp

lemma parse_MList:
  "parse (MList acc) s =
     Option.bind (parse MValue s)
       (\<lambda>(v, r). case skip_ws r of
                    [] \<Rightarrow> None
                  | c # r' \<Rightarrow>
                      if c = CHR '','' then
                        (case skip_ws r' of
                           [] \<Rightarrow> None
                         | d # r'' \<Rightarrow> if d = CHR '']'' then Some (PList (acc @ [v]), r'')
                                     else parse (MList (acc @ [v])) r')
                      else if c = CHR '']'' then Some (PList (acc @ [v]), r')
                      else None)"
  by (subst parse.simps) simp

lemma parse_MDict:
  "parse (MDict acc) s =
     Option.bind (parse MValue s)
       (\<lambda>(key, r). case key of
            PStr k \<Rightarrow>
              (case skip_ws r of
                 [] \<Rightarrow> None
               | c # r' \<Rightarrow>
                   if c = CHR '':'' then
                     Option.bind (parse MValue r')
                       (\<lambda>(v, r2). case skip_ws r2 of
                            [] \<Rightarrow> None
                          | d # r3 \<Rightarrow>
                              if d = CHR '','' then
                                (case skip_ws r3 of
                                   [] \<Rightarrow> None
                                 | e # r4 \<Rightarrow>
                                     if e = CHR ''}'' then Some (PDict (dict_set acc k v), r4)
                                     else parse (MDict (dict_set acc k v)) r3)
                              else if d = CHR ''}'' then Some (PDict (dict_set acc k v), r3)
                              else None)
                   else None)
          | _ \<Rightarrow> None)"
  by (subst parse.simps) simp

lemma parse_MValue_skip: "parse MValue (skip_ws s) = parse MValue s"
  by (simp add: parse_MValue[of s] parse_MValue[of "skip_ws s"])

lemma parse_MValue_blanks:
  "list_all py_blank w \<Longrightarrow> parse MValue (w @ s) = parse MValue s"
  using parse_MValue_skip[of "w @ s"] parse_MValue_skip[of s] by (simp add: skip_ws_blanks)

lemma parse_MList_blanks:
  "list_all py_blank w \<Longrightarrow> parse (MList acc) (w @ s) = parse (MList acc) s"
  by (simp add: parse_MList[of acc s] parse_MList[of acc "w @ s"] parse_MValue_blanks)

lemma parse_MDict_blanks:
  "list_all py_blank w \<Longrightarrow> parse (MDict acc) (w @ s) = parse (MDict acc) s"
  by (simp add: parse_MDict[of acc s] parse_MDict[of acc "w @ s"] parse_MValue_blanks)

lemma lex_atom_closing:
  "c = CHR '']'' \<or> c = CHR ''}'' \<Longrightarrow> lex_atom (c # r) = None"
  by (auto simp: lex_atom_def keyword_def num_char_def is_digit_def int_text_def float_text_def)

lemma parse_MValue_first:
  assumes "parse MValue s = Some res"
  shows "\<exists>c r. skip_ws s = c # r \<and> c \<noteq> CHR '']'' \<and> c \<noteq> CHR ''}''"
proof (cases "skip_ws s")
  case Nil
  then show ?thesis using assms by (simp add: parse_MValue[of s])
next
  case (Cons c r)
  have "c \<noteq> CHR '']'' \<and> c \<noteq> CHR ''}''"
  proof (rule ccontr)
    assume "\<not> ?thesis"
    then have "c = CHR '']'' \<or> c = CHR ''}''" by auto
    then show False
      using assms Cons lex_atom_closing[of c r] by (auto simp: parse_MValue[of s] is_quote_def)
  qed
  with Cons show ?thesis by simp
qed

lemma stop_not_ident: "stop (c # r) \<Longrightarrow> \<not> ident_char c"
  by (auto simp: stop_def ident_char_def)

lemma stop_not_num: "stop (c # r) \<Longrightarrow> \<not> num_char c"
  by (auto simp: stop_def num_char_def is_digit_def)

lemma stop_not_quote: "stop (c # r) \<Longrightarrow> \<not> is_quote c"
  by (auto simp: stop_def is_quote_def)

lemma renders_None: "renders ''None'' PNone"
  unfolding renders_def
proof (intro allI impI)
  fix rest assume "stop rest"
  then have "keyword ''None'' (''None'' @ rest)"
    by (cases rest) (auto simp: keyword_def dest: stop_not_ident)
  then show "parse MValue (''None'' @ rest) = Some (PNone, rest)"
    by (simp add: parse_MValue skip_ws_Cons py_blank_def is_quote_def lex_atom_def)
qed

lemma renders_True: "renders ''True'' (PBool True)"
  unfolding renders_def
proof (intro allI impI)
  fix rest assume "stop rest"
  then have "keyword ''True'' (''True'' @ rest)"
    by (cases rest) (auto simp: keyword_def dest: stop_not_ident)
  moreover have "\<not> keyword ''None'' (''True'' @ rest)" by (simp add: keyword_def)
  ultimately show "parse MValue (''True'' @ rest) = Some (PBool True, rest)"
    by (simp add: parse_MValue skip_ws_Cons py_blank_def is_quote_def lex_atom_def)
qed

lemma renders_False: "renders ''False'' (PBool False)"
  unfolding renders_def
proof (intro allI impI)
  fix rest assume "stop rest"
  then have "keyword ''False'' (''False'' @ rest)"
    by (cases rest) (auto simp: keyword_def dest: stop_not_ident)
  moreover have "\<not> keyword ''None'' (''False'' @ rest)" "\<not> keyword ''True'' (''False'' @ rest)"
    by (simp_all add: keyword_def)
  ultimately show "parse MValue (''False'' @ rest) = Some (PBool False, rest)"
    by (simp add: parse_MValue skip_ws_Cons py_blank_def is_quote_def lex_atom_def)
qed

lemma digit_char:
  fixes n :: nat
  assumes "n < 10"
  shows "is_digit (char_of (48 + n))" and "of_char (char_of (48 + n)) = 48 + n"
  using assms by (simp_all add: is_digit_def)

lemma char_of_48: "char_of (48 :: nat) = CHR ''0''"
  by code_simp

lemma repr_nat_digits: "repr_nat n \<noteq> [] \<and> list_all is_digit (repr_nat n)"
proof (induction n rule: repr_nat.induct)
  case (1 n)
  show ?case
  proof (cases "n < 10")
    case True
    then show ?thesis using digit_char[of n] by (simp add: repr_nat.simps[of n])
  next
    case False
    then show ?thesis using 1 digit_char[of "n mod 10"] by (simp add: repr_nat.simps[of n])
  qed
qed

lemma nat_value_snoc: "nat_value (ds @ [c]) = 10 * nat_value ds + (of_char c - 48)"
  by (simp add: nat_value_def)

lemma nat_value_repr_nat: "nat_value (repr_nat n) = n"
proof (induction n rule: repr_nat.induct)
  case (1 n)
  show ?case
  proof (cases "n < 10")
    case True
    then show ?thesis using digit_char[of n] by (simp add: repr_nat.simps[of n] nat_value_def)
  next
    case False
    then show ?thesis using 1 digit_char[of "n mod 10"]
      by (simp add: repr_nat.simps[of n] nat_value_snoc)
  qed
qed

lemma repr_nat_hd: "hd (repr_nat n) = CHR ''0'' \<Longrightarrow> n = 0"
proof (induction n rule: repr_nat.induct)
  case (1 n)
  show ?case
  proof (cases "n < 10")
    case True
    have "n = 0" if "char_of (48 + n) = CHR ''0''"
    proof -
      have "(of_char (char_of (48 + n)) :: nat) = of_char (CHR ''0'')" using that by simp
      then show ?thesis using digit_char(2)[OF True] by simp
    qed
    then show ?thesis using 1 True by (simp add: repr_nat.simps[of n])
  next
    case False
    then have "hd (repr_nat n) = hd (repr_nat (n div 10))"
      using repr_nat_digits[of "n div 10"] by (simp add: repr_nat.simps[of n])
    then have "n div 10 = 0" using 1 False by simp
    then show ?thesis using False by simp
  qed
qed

lemma digits_text_repr_nat: "digits_text (repr_nat n)"
proof -
  have "hd (repr_nat n) = CHR ''0'' \<longrightarrow> list_all (\<lambda>c. c = CHR ''0'') (repr_nat n)"
  proof
    assume "hd (repr_nat n) = CHR ''0''"
    then have "n = 0" by (rule repr_nat_hd)
    then show "list_all (\<lambda>c. c = CHR ''0'') (repr_nat n)"
      by (simp add: repr_nat.simps[of 0] char_of_48)
  qed
  then show ?thesis using repr_nat_digits[of n] by (simp add: digits_text_def)
qed

lemma takeWhile_token:
  assumes "list_all P tok" and "rest = [] \<or> \<not> P (hd rest)"
  shows "takeWhile P (tok @ rest) = tok" and "dropWhile P (tok @ rest) = rest"
proof -
  have "takeWhile P rest = []" "dropWhile P rest = rest"
    using assms(2) by (cases rest; simp)+
  then show "takeWhile P (tok @ rest) = tok" and "dropWhile P (tok @ rest) = rest"
    using assms(1) by (induction tok) auto
qed

lemma num_char_first:
  "num_char c \<Longrightarrow> \<not> py_blank c \<and> \<not> is_quote c \<and> c \<noteq> CHR ''{'' \<and> c \<noteq> CHR ''['' \<and> c \<noteq> CHR ''(''
     \<and> c \<noteq> CHR ''N'' \<and> c \<noteq> CHR ''T'' \<and> c \<noteq> CHR ''F''"
  by (auto simp: num_char_def is_digit_def py_blank_def is_quote_def)

lemma parse_number:
  assumes "tok \<noteq> []" and "list_all num_char tok" and "stop rest"
  shows "parse MValue (tok @ rest) =
           (if int_text tok then Some (PInt (int_value tok), rest)
            else if float_text tok then Some (PFloat tok, rest)
            else None)"
proof -
  obtain c r where tok: "tok = c # r" using assms(1) by (cases tok) auto
  have c: "num_char c" using assms(2) tok by simp
  note f = num_char_first[OF c]
  have nk: "\<not> keyword ''None'' (tok @ rest)" "\<not> keyword ''True'' (tok @ rest)"
    "\<not> keyword ''False'' (tok @ rest)"
    using f by (auto simp: keyword_def tok)
  have r: "rest = [] \<or> \<not> num_char (hd rest)"
    using assms(3) by (cases rest) (auto dest: stop_not_num)
  have "parse MValue (tok @ rest) = lex_atom (tok @ rest)"
    using f by (simp add: parse_MValue[of "c # r @ rest"] tok skip_ws_Cons)
  also have "\<dots> = (if int_text tok then Some (PInt (int_value tok), rest)
            else if float_text tok then Some (PFloat tok, rest)
            else None)"
    using nk takeWhile_token[OF assms(2) r] by (simp add: lex_atom_def Let_def)
  finally show ?thesis .
qed

lemma is_digit_num_char: "is_digit c \<Longrightarrow> num_char c"
  by (simp add: num_char_def)

lemma int_value_digits:
  "ds \<noteq> [] \<Longrightarrow> hd ds \<noteq> CHR ''-'' \<Longrightarrow> int_value ds = int (nat_value ds)"
  by (cases ds) (simp_all add: int_value_def)

lemma renders_int: "renders (repr_int i) (PInt i)"
  unfolding renders_def
proof (intro allI impI)
  fix rest assume s: "stop rest"
  let ?ds = "repr_nat (nat \<bar>i\<bar>)"
  have ds: "?ds \<noteq> []" "list_all is_digit ?ds" using repr_nat_digits by auto
  then have nc: "list_all num_char ?ds" by (auto simp: list_all_iff is_digit_num_char)
  obtain d ds' where dd: "?ds = d # ds'" using ds(1) by (cases ?ds) auto
  have d: "is_digit d" using ds(2) dd by simp
  then have dm: "d \<noteq> CHR ''-''" by (auto simp: is_digit_def)
  have av: "nat_value ?ds = nat \<bar>i\<bar>" by (rule nat_value_repr_nat)
  show "parse MValue (repr_int i @ rest) = Some (PInt i, rest)"
  proof (cases "i < 0")
    case True
    then have t: "repr_int i = CHR ''-'' # ?ds" by (simp add: repr_int_def abs_if)
    have "int_text (CHR ''-'' # ?ds)" by (simp add: int_text_def digits_text_repr_nat)
    moreover have "int_value (CHR ''-'' # ?ds) = i"
      using True nat_value_repr_nat[of "nat (- i)"] by (simp add: int_value_def)
    moreover have "list_all num_char (CHR ''-'' # ?ds)" using nc by (simp add: num_char_def)
    ultimately show ?thesis using parse_number[of "CHR ''-'' # ?ds" rest] s by (simp add: t)
  next
    case False
    then have t: "repr_int i = ?ds" by (simp add: repr_int_def abs_if)
    have "int_text ?ds" using dm digits_text_repr_nat[of "nat \<bar>i\<bar>"] by (simp add: int_text_def dd)
    moreover have "int_value ?ds = i"
    proof -
      have "int_value ?ds = int (nat_value ?ds)"
        using dm dd by (intro int_value_digits) simp_all
      then show ?thesis using False nat_value_repr_nat[of "nat i"] by simp
    qed
    ultimately show ?thesis using parse_number[OF ds(1) nc s] by (simp add: t)
  qed
qed

lemma fl_digits_num: "fl_digits s \<Longrightarrow> list_all num_char s"
  by (induction s) (auto simp: is_digit_num_char)

lemma fl_exp_num: "fl_exp s \<Longrightarrow> list_all num_char s"
  by (cases s) (auto simp: fl_exp_def num_char_def dest: fl_digits_num split: if_splits)

lemma fl_frac_num: "fl_frac s \<Longrightarrow> list_all num_char s"
  by (induction s) (auto simp: is_digit_num_char num_char_def dest: fl_exp_num split: if_splits)

lemma fl_int_num: "fl_int s \<Longrightarrow> list_all num_char s"
  by (induction s) (auto simp: is_digit_num_char num_char_def dest: fl_exp_num fl_frac_num split: if_splits)

lemma fl_int_not_digits: "fl_int s \<Longrightarrow> \<not> list_all is_digit s"
  by (induction s) (auto simp: is_digit_def split: if_splits)

lemma float_text_token:
  assumes "float_text r"
  shows "r \<noteq> []" and "list_all num_char r" and "\<not> int_text r"
proof -
  show "r \<noteq> []" using assms by (auto simp: float_text_def)
  show "list_all num_char r"
  proof (cases r)
    case Nil
    then show ?thesis by simp
  next
    case (Cons c r1)
    show ?thesis
    proof (cases "c = CHR ''-''")
      case True
      then obtain d r2 where "r1 = d # r2" "is_digit d" "fl_int r2"
        using assms Cons by (cases r1) (auto simp: float_text_def)
      then show ?thesis using Cons True fl_int_num[of r2]
        by (simp add: num_char_def)
    next
      case False
      then have "is_digit c" "fl_int r1" using assms Cons by (auto simp: float_text_def)
      then show ?thesis using Cons fl_int_num[of r1] by (simp add: num_char_def)
    qed
  qed
  show "\<not> int_text r"
    using assms
    by (auto simp: float_text_def int_text_def digits_text_def is_digit_def dest!: fl_int_not_digits
        split: list.splits if_splits)
qed

lemma renders_float: "float_text r \<Longrightarrow> renders r (PFloat r)"
  unfolding renders_def using parse_number[of r] float_text_token[of r] by simp

lemma hex_val_hex_digit: "k < 16 \<Longrightarrow> hex_val (hex_digit k) = Some k"
  by (auto simp: hex_val_def hex_digit_def Let_def)

lemma char_of_hex_parts: "char_of (16 * (of_char c div 16) + of_char c mod 16 :: nat) = c"
  by simp

lemma lex_repr_char:
  assumes "is_quote q"
  shows "lex_str_body q (repr_char q c @ tail) =
           map_option (\<lambda>(x, rest). (c # x, rest)) (lex_str_body q tail)"
proof -
  have q: "q \<noteq> CHR 0x5C" "q \<noteq> CHR 0x0A" "q \<noteq> CHR 0x0D" "q \<noteq> CHR ''x''"
    using assms by (auto simp: is_quote_def)
  have uq: "unescape q = Some q" using assms by (auto simp: unescape_def is_quote_def)
  consider (quote) "c = q" | (bs) "c \<noteq> q" "c = CHR 0x5C" | (tab) "c \<noteq> q" "c = CHR 0x09"
    | (nl) "c \<noteq> q" "c = CHR 0x0A" | (cr) "c \<noteq> q" "c = CHR 0x0D"
    | (raw) "c \<noteq> q" "c \<noteq> CHR 0x5C" "c \<noteq> CHR 0x09" "c \<noteq> CHR 0x0A" "c \<noteq> CHR 0x0D" "py_isprintable c"
    | (hex) "c \<noteq> q" "c \<noteq> CHR 0x5C" "c \<noteq> CHR 0x09" "c \<noteq> CHR 0x0A" "c \<noteq> CHR 0x0D" "\<not> py_isprintable c"
    by blast
  then show ?thesis
  proof cases
    case quote
    then show ?thesis using q uq by (simp add: repr_char_def)
  next
    case bs
    then show ?thesis using q by (simp add: repr_char_def unescape_def)
  next
    case tab
    then show ?thesis using q by (simp add: repr_char_def unescape_def)
  next
    case nl
    then show ?thesis using q by (simp add: repr_char_def unescape_def)
  next
    case cr
    then show ?thesis using q by (simp add: repr_char_def unescape_def)
  next
    case raw
    then show ?thesis by (simp add: repr_char_def)
  next
    case hex
    have "(of_char c :: nat) < 16 * 16" by simp
    then have "(of_char c :: nat) div 16 < 16" by (rule less_mult_imp_div_less)
    then have d: "(of_char c :: nat) div 16 < 16" "(of_char c :: nat) mod 16 < 16" by auto
    show ?thesis using hex q
      by (simp add: repr_char_def hex_val_hex_digit[OF d(1)] hex_val_hex_digit[OF d(2)]
            char_of_hex_parts)
  qed
qed

lemma lex_str_body_repr:
  assumes "is_quote q"
  shows "lex_str_body q (concat (map (repr_char q) s) @ q # rest) = Some (s, rest)"
  by (induction s) (simp_all add: lex_repr_char[OF assms])

lemma repr_str_shape:
  "\<exists>q. is_quote q \<and> repr_str s = q # concat (map (repr_char q) s) @ [q]"
  by (auto simp: repr_str_def Let_def is_quote_def)

lemma quote_first:
  "is_quote q \<Longrightarrow> \<not> py_blank q \<and> q \<noteq> CHR ''{'' \<and> q \<noteq> CHR ''['' \<and> q \<noteq> CHR ''(''"
  by (auto simp: is_quote_def py_blank_def)

lemma parse_MStr_quote:
  "is_quote c \<Longrightarrow>
   parse (MStr acc) (c # r) =
     (case lex_str_body c r of None \<Rightarrow> None | Some (x, r') \<Rightarrow> parse (MStr (acc @ x)) r')"
  using quote_first[of c] by (simp add: parse_MStr[of acc "c # r"] skip_ws_Cons)

lemma parse_MValue_quote:
  "is_quote c \<Longrightarrow> parse MValue (c # r) = parse (MStr []) (c # r)"
  using quote_first[of c] by (simp add: parse_MValue[of "c # r"] skip_ws_Cons)

lemma parse_MStr_repr:
  "parse (MStr acc) (repr_str x @ tail) = parse (MStr (acc @ x)) tail"
proof -
  obtain q where q: "is_quote q" and r: "repr_str x = q # concat (map (repr_char q) x) @ [q]"
    using repr_str_shape by blast
  show ?thesis
    using lex_str_body_repr[OF q, of x tail] by (simp add: r parse_MStr_quote[OF q])
qed

lemma parse_MStr_stop: "parse (MStr acc) rest = Some (PStr acc, rest)" if "stop rest"
proof (cases rest)
  case Nil
  then show ?thesis by (simp add: parse_MStr[of acc "[]"])
next
  case (Cons c r)
  then have "skip_ws (c # r) = c # r" "\<not> is_quote c"
    using that skip_ws_stop[of rest] stop_not_quote[of c r] by auto
  then show ?thesis by (simp add: Cons parse_MStr[of acc "c # r"])
qed

lemma parse_MStr_blanks:
  assumes "list_all py_blank w" and "is_quote c"
  shows "parse (MStr acc) (w @ c # s) = parse (MStr acc) (c # s)"
proof -
  have "\<not> py_blank c" using assms(2) by (auto simp: is_quote_def py_blank_def)
  then have "skip_ws (w @ c # s) = c # s" "skip_ws (c # s) = c # s"
    using assms(1) by (simp_all add: skip_ws_blanks skip_ws_Cons)
  then show ?thesis using assms(2)
    by (simp add: parse_MStr[of acc "w @ c # s"] parse_MStr[of acc "c # s"])
qed

lemma parse_MStr_chunks:
  assumes "stop rest" and "list_all py_blank sep"
  shows "parse (MStr acc) (join sep (map repr_str pieces) @ rest) = Some (PStr (acc @ concat pieces), rest)"
proof (induction pieces arbitrary: acc)
  case Nil
  then show ?case using assms(1) by (simp add: parse_MStr_stop)
next
  case (Cons x xs)
  show ?case
  proof (cases xs)
    case Nil
    then show ?thesis using assms(1) by (simp add: parse_MStr_repr parse_MStr_stop)
  next
    case (Cons y ys)
    obtain q where q: "is_quote q" and r: "repr_str y = q # concat (map (repr_char q) y) @ [q]"
      using repr_str_shape by blast
    have "join sep (map repr_str (y # ys)) @ rest = q # tl (join sep (map repr_str (y # ys)) @ rest)"
      by (cases ys) (simp_all add: r)
    then have "parse (MStr (acc @ x)) (sep @ join sep (map repr_str (y # ys)) @ rest)
             = parse (MStr (acc @ x)) (join sep (map repr_str (y # ys)) @ rest)"
      using parse_MStr_blanks[OF assms(2) q] by metis
    then show ?thesis using Cons.IH[of "acc @ x"] Cons by (simp add: parse_MStr_repr)
  qed
qed

lemma renders_chunks:
  assumes "pieces \<noteq> []" and "list_all py_blank sep"
  shows "renders (join sep (map repr_str pieces)) (PStr (concat pieces))"
  unfolding renders_def
proof (intro allI impI)
  fix rest assume s: "stop rest"
  obtain x xs where p: "pieces = x # xs" using assms(1) by (cases pieces) auto
  obtain q where q: "is_quote q" and r: "repr_str x = q # concat (map (repr_char q) x) @ [q]"
    using repr_str_shape by blast
  let ?t = "join sep (map repr_str pieces) @ rest"
  have hd: "?t = q # tl ?t" by (cases xs) (simp_all add: p r)
  have "parse MValue (q # tl ?t) = parse (MStr []) (q # tl ?t)"
    by (rule parse_MValue_quote[OF q])
  then have "parse MValue ?t = parse (MStr []) ?t" using hd by simp
  then show "parse MValue ?t = Some (PStr (concat pieces), rest)"
    using parse_MStr_chunks[OF s assms(2), of "[]" pieces] by simp
qed

lemma renders_repr_str: "renders (repr_str s) (PStr s)"
  using renders_chunks[of "[s]" "[]"] by simp

lemma concat_splitlines: "concat (splitlines cur s) = cur @ s"
  by (induction cur s rule: splitlines.induct) auto

lemma splitlines_nonempty: "[] \<notin> set (splitlines cur s)"
  by (induction cur s rule: splitlines.induct) auto

lemma concat_re_parts: "concat (re_parts sp cur s) = cur @ s"
  by (induction sp cur s rule: re_parts.induct) auto

lemma wrap_parts_pieces:
  "\<exists>pieces. wrap_parts ll mw al cur parts = map repr_str pieces \<and>
            concat pieces = cur @ concat parts \<and>
            (cur @ concat parts \<noteq> [] \<longrightarrow> pieces \<noteq> [])"
proof (induction parts arbitrary: cur)
  case Nil
  show ?case
  proof (cases "cur = []")
    case True
    then show ?thesis by (intro exI[of _ "[]"]) simp
  next
    case False
    then show ?thesis by (intro exI[of _ "[cur]"]) simp
  qed
next
  case (Cons part parts)
  let ?mw2 = "if parts = [] \<and> ll then mw - int al else mw"
  show ?case
  proof (cases "int (length (repr_str (cur @ part))) > ?mw2")
    case True
    obtain ps where ps: "wrap_parts ll mw al part parts = map repr_str ps"
      "concat ps = part @ concat parts" "part @ concat parts \<noteq> [] \<longrightarrow> ps \<noteq> []"
      using Cons[of part] by blast
    show ?thesis
    proof (cases "cur = []")
      case c: True
      show ?thesis using True ps c by (intro exI[of _ ps]) (simp add: Let_def)
    next
      case c: False
      show ?thesis using True ps c by (intro exI[of _ "cur # ps"]) (simp add: Let_def)
    qed
  next
    case False
    obtain ps where ps: "wrap_parts ll mw al (cur @ part) parts = map repr_str ps"
      "concat ps = (cur @ part) @ concat parts" "(cur @ part) @ concat parts \<noteq> [] \<longrightarrow> ps \<noteq> []"
      using Cons[of "cur @ part"] by blast
    show ?thesis using False ps by (intro exI[of _ ps]) (simp add: Let_def)
  qed
qed

lemma str_chunks_pieces:
  assumes "[] \<notin> set lines"
  shows "\<exists>pieces. str_chunks mw al lines = map repr_str pieces \<and>
            concat pieces = concat lines \<and> length lines \<le> length pieces"
  using assms
proof (induction lines)
  case Nil
  then show ?case by simp
next
  case (Cons line lines)
  then obtain ps where ps: "str_chunks mw al lines = map repr_str ps"
    "concat ps = concat lines" "length lines \<le> length ps" by auto
  have ne: "line \<noteq> []" using Cons.prems by auto
  let ?mw1 = "if lines = [] then mw - int al else mw"
  show ?case
  proof (cases "int (length (repr_str line)) \<le> ?mw1")
    case True
    then show ?thesis using ps by (intro exI[of _ "line # ps"]) (simp add: Let_def)
  next
    case False
    obtain qs where qs: "wrap_parts (lines = []) mw al [] (re_parts False [] line) = map repr_str qs"
      "concat qs = [] @ concat (re_parts False [] line)"
      "[] @ concat (re_parts False [] line) \<noteq> [] \<longrightarrow> qs \<noteq> []"
      using wrap_parts_pieces by blast
    then have "concat qs = line" "qs \<noteq> []" using ne by (simp_all add: concat_re_parts)
    then have "1 \<le> length qs" by (cases qs) auto
    then show ?thesis using False ps qs(1) \<open>concat qs = line\<close>
      by (intro exI[of _ "qs @ ps"]) (simp add: Let_def)
  qed
qed

lemma blank_sep: "list_all py_blank (CHR 0x0A # replicate n CHR '' '')"
  by (simp add: py_blank_def list_all_iff)

lemma renders_paren:
  assumes "renders txt v"
  shows "renders (''('' @ txt @ '')'') v"
  unfolding renders_def
proof (intro allI impI)
  fix rest assume s: "stop rest"
  have "stop ('')'' @ rest)" by (simp add: stop_def)
  then have "parse MValue (txt @ '')'' @ rest) = Some (v, '')'' @ rest)"
    using assms by (simp add: renders_def)
  then show "parse MValue ((''('' @ txt @ '')'') @ rest) = Some (v, rest)"
    by (simp add: parse_MValue[of "CHR ''('' # txt @ CHR '')'' # rest"] skip_ws_Cons py_blank_def)
qed

lemma renders_pprint_str: "renders (pprint_str s i a l) (PStr s)"
proof (cases "s = []")
  case True
  then show ?thesis using renders_repr_str[of "[]"] by (simp add: pprint_str_def)
next
  case False
  define i' where "i' = (if l = 1 then i + 1 else i)"
  define a' where "a' = (if l = 1 then a + 1 else a)"
  define lines where "lines = splitlines [] s"
  define chunks where "chunks = str_chunks (88 - int i') a' lines"
  have p: "pprint_str s i a l =
             (if length chunks = 1 then repr_str (last lines)
              else (if l = 1 then ''('' else [])
                   @ join (CHR 0x0A # replicate i' CHR '' '') chunks
                   @ (if l = 1 then '')'' else []))"
    using False by (simp add: pprint_str_def Let_def i'_def a'_def lines_def chunks_def)
  obtain ps where ps: "chunks = map repr_str ps" "concat ps = concat lines"
    "length lines \<le> length ps"
    unfolding chunks_def lines_def using str_chunks_pieces[OF splitlines_nonempty] by blast
  have cs: "concat ps = s" using ps(2) by (simp add: lines_def concat_splitlines)
  then have pne: "ps \<noteq> []" using False by auto
  have lne: "lines \<noteq> []" using False concat_splitlines[of "[]" s] by (auto simp: lines_def)
  show ?thesis
  proof (cases "length chunks = 1")
    case True
    then have "length lines = 1" using ps(1,3) lne by (cases lines) auto
    then obtain x where x: "lines = [x]" by (cases lines) auto
    then have "x = s" using concat_splitlines[of "[]" s] by (simp add: lines_def)
    then have "pprint_str s i a l = repr_str s" using True x by (simp add: p)
    then show ?thesis by (simp add: renders_repr_str)
  next
    case nl: False
    have r: "renders (join (CHR 0x0A # replicate i' CHR '' '') chunks) (PStr s)"
      using renders_chunks[OF pne blank_sep, of i'] by (simp add: ps(1) cs)
    show ?thesis
    proof (cases "l = 1")
      case True
      then have "pprint_str s i a l = ''('' @ join (CHR 0x0A # replicate i' CHR '' '') chunks @ '')''"
        using nl p by simp
      then show ?thesis using renders_paren[OF r] by simp
    next
      case l: False
      then have "pprint_str s i a l = join (CHR 0x0A # replicate i' CHR '' '') chunks"
        using nl p by simp
      then show ?thesis using r by simp
    qed
  qed
qed

lemma renders_format_PStr: "renders (format (PStr s) i a l) (PStr s)"
  by (simp add: format.simps[of "PStr s"] Let_def renders_pprint_str renders_repr_str)

lemma join_Cons: "join sep (t # ts) = t @ (if ts = [] then [] else sep @ join sep ts)"
  by (cases ts) simp_all

lemma renders_first:
  assumes "renders t v" and "stop X"
  shows "\<exists>c r. skip_ws (t @ X) = c # r \<and> c \<noteq> CHR '']'' \<and> c \<noteq> CHR ''}''"
  using assms parse_MValue_first[of "t @ X"] by (auto simp: renders_def)

lemma stop_chars [simp]:
  "stop []" "stop (CHR '','' # r)" "stop (CHR '']'' # r)" "stop (CHR ''}'' # r)"
  "stop (CHR '')'' # r)" "stop (CHR '':'' # r)"
  by (simp_all add: stop_def)

lemma skip_ws_chars [simp]:
  "skip_ws (CHR '','' # r) = CHR '','' # r" "skip_ws (CHR '']'' # r) = CHR '']'' # r"
  "skip_ws (CHR ''}'' # r) = CHR ''}'' # r" "skip_ws (CHR '':'' # r) = CHR '':'' # r"
  by (simp_all add: skip_ws_Cons py_blank_def)

lemma parse_MList_step:
  assumes "parse MValue s = Some (v, r)" and "skip_ws r = CHR '','' # r'"
    and "skip_ws r' = d # r''" and "d \<noteq> CHR '']''"
  shows "parse (MList acc) s = parse (MList (acc @ [v])) r'"
  using assms by (simp add: parse_MList[of acc s])

lemma parse_MList_last:
  assumes "parse MValue s = Some (v, r)" and "skip_ws r = CHR '']'' # r'"
  shows "parse (MList acc) s = Some (PList (acc @ [v]), r')"
  using assms by (simp add: parse_MList[of acc s])

lemma parse_MDict_step:
  assumes "parse MValue s = Some (PStr k, r)" and "skip_ws r = CHR '':'' # r1"
    and "parse MValue r1 = Some (v, r2)" and "skip_ws r2 = CHR '','' # r3"
    and "skip_ws r3 = e # r4" and "e \<noteq> CHR ''}''"
  shows "parse (MDict acc) s = parse (MDict (dict_set acc k v)) r3"
  using assms by (simp add: parse_MDict[of acc s])

lemma parse_MDict_last:
  assumes "parse MValue s = Some (PStr k, r)" and "skip_ws r = CHR '':'' # r1"
    and "parse MValue r1 = Some (v, r2)" and "skip_ws r2 = CHR ''}'' # r3"
  shows "parse (MDict acc) s = Some (PDict (dict_set acc k v), r3)"
  using assms by (simp add: parse_MDict[of acc s])

lemma parse_MList_join:
  assumes "list_all2 renders ts vs" and "ts \<noteq> []" and "list_all py_blank w" and "stop rest"
  shows "parse (MList acc) (join (CHR '','' # w) ts @ '']'' @ rest) = Some (PList (acc @ vs), rest)"
  using assms(1,2)
proof (induction ts vs arbitrary: acc rule: list_all2_induct)
  case Nil
  then show ?case by simp
next
  case (Cons t ts v vs)
  show ?case
  proof (cases "ts = []")
    case True
    then have vs: "vs = []" using Cons.hyps(2) by simp
    have m: "parse MValue (t @ CHR '']'' # rest) = Some (v, CHR '']'' # rest)"
      using Cons.hyps(1) by (simp add: renders_def)
    have "parse (MList acc) (t @ CHR '']'' # rest) = Some (PList (acc @ [v]), rest)"
      by (rule parse_MList_last[OF m]) simp
    then show ?thesis using True vs by simp
  next
    case False
    let ?J = "join (CHR '','' # w) ts @ '']'' @ rest"
    obtain t2 ts' where ts: "ts = t2 # ts'" using False by (cases ts) auto
    obtain v2 vs' where vs: "vs = v2 # vs'" and r2: "renders t2 v2"
      using Cons.hyps(2) ts by (cases vs) auto
    let ?X = "(if ts' = [] then [] else (CHR '','' # w) @ join (CHR '','' # w) ts') @ '']'' @ rest"
    have J: "?J = t2 @ ?X" by (simp add: ts join_Cons)
    have "stop ?X" by simp
    then obtain c r where c: "skip_ws ?J = c # r" "c \<noteq> CHR '']''"
      using renders_first[OF r2, of ?X] J by auto
    have 1: "parse MValue (t @ CHR '','' # w @ ?J) = Some (v, CHR '','' # w @ ?J)"
      using Cons.hyps(1) by (simp add: renders_def)
    have 2: "skip_ws (w @ ?J) = c # r" using c(1) assms(3) by (simp add: skip_ws_blanks)
    have "parse (MList acc) (t @ CHR '','' # w @ ?J) = parse (MList (acc @ [v])) (w @ ?J)"
      using parse_MList_step[OF 1 _ 2 c(2)] by simp
    also have "\<dots> = parse (MList (acc @ [v])) ?J"
      using assms(3) by (rule parse_MList_blanks)
    also have "\<dots> = Some (PList ((acc @ [v]) @ vs), rest)"
      using Cons.IH[OF False] by simp
    finally show ?thesis using False by (simp add: join_Cons)
  qed
qed

lemma dict_set_fresh: "k \<notin> fst ` set d \<Longrightarrow> dict_set d k v = d @ [(k, v)]"
  by (induction d) auto

lemma parse_MDict_join:
  assumes "list_all2 (\<lambda>kt kv. fst kt = fst kv \<and> renders (snd kt) (snd kv)) kts kvs"
    and "kts \<noteq> []" and "list_all py_blank w" and "stop rest"
    and "distinct (map fst acc @ map fst kvs)"
  shows "parse (MDict acc)
           (join (CHR '','' # w) (map (\<lambda>(k, tx). repr_str k @ '': '' @ tx) kts) @ ''}'' @ rest)
         = Some (PDict (acc @ kvs), rest)"
  using assms(1,2,5)
proof (induction kts kvs arbitrary: acc rule: list_all2_induct)
  case Nil
  then show ?case by simp
next
  case (Cons kt kts kv kvs)
  obtain k tx where kt: "kt = (k, tx)" by (cases kt)
  obtain k' v where kv: "kv = (k', v)" by (cases kv)
  have kk: "k' = k" and rv: "renders tx v" using Cons.hyps(1) kt kv by auto
  have fresh: "k \<notin> fst ` set acc" using Cons.prems(2) kv kk by auto
  have dist: "distinct (map fst (acc @ [(k, v)]) @ map fst kvs)"
    using Cons.prems(2) kv kk by auto
  let ?item = "\<lambda>(k, tx). repr_str k @ '': '' @ tx"
  have key: "parse MValue (repr_str k @ CHR '':'' # Y) = Some (PStr k, CHR '':'' # Y)" for Y
    using renders_repr_str[of k] by (simp add: renders_def)
  have bl: "list_all py_blank '' ''" by (simp add: py_blank_def)
  show ?case
  proof (cases "kts = []")
    case True
    then have kvs: "kvs = []" using Cons.hyps(2) by simp
    have val: "parse MValue ('' '' @ tx @ ''}'' @ rest) = Some (v, ''}'' @ rest)"
      using rv parse_MValue_blanks[OF bl, of "tx @ ''}'' @ rest"] by (simp add: renders_def)
    have "parse (MDict acc) (repr_str k @ CHR '':'' # '' '' @ tx @ ''}'' @ rest)
          = Some (PDict (dict_set acc k v), rest)"
      by (rule parse_MDict_last[OF key _ val]) simp_all
    then show ?thesis using True kvs by (simp add: kt kv kk dict_set_fresh[OF fresh])
  next
    case False
    let ?J = "join (CHR '','' # w) (map ?item kts) @ ''}'' @ rest"
    obtain kt2 kts' where kts: "kts = kt2 # kts'" using False by (cases kts) auto
    obtain k2 tx2 where kt2: "kt2 = (k2, tx2)" by (cases kt2)
    let ?X = "CHR '':'' # '' '' @ tx2 @ (if kts' = [] then [] else (CHR '','' # w) @ join (CHR '','' # w) (map ?item kts')) @ ''}'' @ rest"
    have J: "?J = repr_str k2 @ ?X" by (simp add: kts kt2 join_Cons)
    have "stop ?X" by simp
    then obtain c r where c: "skip_ws ?J = c # r" "c \<noteq> CHR ''}''"
      using renders_first[OF renders_repr_str[of k2], of ?X] J by auto
    have val: "parse MValue ('' '' @ tx @ CHR '','' # w @ ?J) = Some (v, CHR '','' # w @ ?J)"
      using rv parse_MValue_blanks[OF bl, of "tx @ CHR '','' # w @ ?J"] by (simp add: renders_def)
    have 2: "skip_ws (w @ ?J) = c # r" using c(1) assms(3) by (simp add: skip_ws_blanks)
    have "parse (MDict acc) (repr_str k @ CHR '':'' # '' '' @ tx @ CHR '','' # w @ ?J)
          = parse (MDict (dict_set acc k v)) (w @ ?J)"
      by (rule parse_MDict_step[OF key _ val _ 2 c(2)]) simp_all
    also have "\<dots> = parse (MDict (acc @ [(k, v)])) ?J"
      using assms(3) by (simp add: parse_MDict_blanks dict_set_fresh[OF fresh])
    also have "\<dots> = Some (PDict ((acc @ [(k, v)]) @ kvs), rest)"
      using Cons.IH[OF False dist] by simp
    finally show ?thesis using False by (simp add: join_Cons kt kv kk)
  qed
qed

lemma items_loop_join:
  assumes "xs \<noteq> []"
  shows "\<exists>ts. items_loop fmt xs i a l = join (CHR '','' # CHR 0x0A # replicate i CHR '' '') ts \<and>
              list_all2 (\<lambda>t x. \<exists>a'. t = fmt x i a' l) ts xs"
  using assms
proof (induction xs)
  case Nil
  then show ?case by simp
next
  case (Cons x xs)
  show ?case
  proof (cases "xs = []")
    case True
    then show ?thesis by (intro exI[of _ "[fmt x i a l]"]) (auto simp: Let_def)
  next
    case False
    then obtain ts where ts: "items_loop fmt xs i a l = join (CHR '','' # CHR 0x0A # replicate i CHR '' '') ts"
      "list_all2 (\<lambda>t x. \<exists>a'. t = fmt x i a' l) ts xs"
      using Cons.IH by blast
    then have "ts \<noteq> []" using False by auto
    then show ?thesis using ts False
      by (intro exI[of _ "fmt x i 1 l # ts"]) (auto simp: Let_def join_Cons)
  qed
qed

lemma dict_items_loop_join:
  assumes "items \<noteq> []"
  shows "\<exists>kts. dict_items_loop fmt items i a l =
                 join (CHR '','' # CHR 0x0A # replicate i CHR '' '')
                   (map (\<lambda>(k, tx). repr_str k @ '': '' @ tx) kts) \<and>
               list_all2 (\<lambda>kt kv. fst kt = fst kv \<and> (\<exists>i' a'. snd kt = fmt (snd kv) i' a' l)) kts items"
  using assms
proof (induction items)
  case Nil
  then show ?case by simp
next
  case (Cons kv items)
  obtain k v where kv: "kv = (k, v)" by (cases kv)
  show ?case
  proof (cases "items = []")
    case True
    then show ?thesis unfolding kv
      by (intro exI[of _ "[(k, fmt v (i + length (repr_str k) + 2) a l)]"]) (auto simp: Let_def)
  next
    case False
    then obtain kts where kts: "dict_items_loop fmt items i a l =
                 join (CHR '','' # CHR 0x0A # replicate i CHR '' '')
                   (map (\<lambda>(k, tx). repr_str k @ '': '' @ tx) kts)"
      "list_all2 (\<lambda>kt kv. fst kt = fst kv \<and> (\<exists>i' a'. snd kt = fmt (snd kv) i' a' l)) kts items"
      using Cons.IH by blast
    then have "kts \<noteq> []" using False by auto
    then show ?thesis using kts False unfolding kv
      by (intro exI[of _ "(k, fmt v (i + length (repr_str k) + 2) 1 l) # kts"])
         (auto simp: Let_def join_Cons)
  qed
qed

lemma parse_MValue_open_list:
  assumes "skip_ws r = d # r'" and "d \<noteq> CHR '']''"
  shows "parse MValue (CHR ''['' # r) = parse (MList []) r"
  using assms by (simp add: parse_MValue[of "CHR ''['' # r"] skip_ws_Cons py_blank_def)

lemma parse_MValue_open_dict:
  assumes "skip_ws r = d # r'" and "d \<noteq> CHR ''}''"
  shows "parse MValue (CHR ''{'' # r) = parse (MDict []) r"
  using assms by (simp add: parse_MValue[of "CHR ''{'' # r"] skip_ws_Cons py_blank_def)

lemma renders_list_text:
  assumes "list_all2 renders ts vs" and "ts \<noteq> []" and "list_all py_blank w0" and "list_all py_blank w"
  shows "renders (''['' @ w0 @ join (CHR '','' # w) ts @ '']'') (PList vs)"
  unfolding renders_def
proof (intro allI impI)
  fix rest assume s: "stop rest"
  let ?J = "join (CHR '','' # w) ts @ '']'' @ rest"
  obtain t ts' where ts: "ts = t # ts'" using assms(2) by (cases ts) auto
  obtain v vs' where "vs = v # vs'" and r: "renders t v" using assms(1) ts by (cases vs) auto
  let ?X = "(if ts' = [] then [] else (CHR '','' # w) @ join (CHR '','' # w) ts') @ '']'' @ rest"
  have J: "?J = t @ ?X" by (simp add: ts join_Cons)
  have "stop ?X" by simp
  then obtain c r' where c: "skip_ws ?J = c # r'" "c \<noteq> CHR '']''"
    using renders_first[OF r, of ?X] J by auto
  have 2: "skip_ws (w0 @ ?J) = c # r'" using c(1) assms(3) by (simp add: skip_ws_blanks)
  have "parse MValue (CHR ''['' # w0 @ ?J) = parse (MList []) (w0 @ ?J)"
    by (rule parse_MValue_open_list[OF 2 c(2)])
  also have "\<dots> = parse (MList []) ?J" using assms(3) by (rule parse_MList_blanks)
  also have "\<dots> = Some (PList vs, rest)"
    using parse_MList_join[OF assms(1,2,4) s, of "[]"] by simp
  finally show "parse MValue ((''['' @ w0 @ join (CHR '','' # w) ts @ '']'') @ rest) = Some (PList vs, rest)"
    by simp
qed

lemma renders_dict_text:
  assumes "list_all2 (\<lambda>kt kv. fst kt = fst kv \<and> renders (snd kt) (snd kv)) kts kvs"
    and "kts \<noteq> []" and "list_all py_blank w0" and "list_all py_blank w"
    and "distinct (map fst kvs)"
  shows "renders (''{'' @ w0 @ join (CHR '','' # w) (map (\<lambda>(k, tx). repr_str k @ '': '' @ tx) kts) @ ''}'')
           (PDict kvs)"
  unfolding renders_def
proof (intro allI impI)
  fix rest assume s: "stop rest"
  let ?item = "\<lambda>(k, tx). repr_str k @ '': '' @ tx"
  let ?J = "join (CHR '','' # w) (map ?item kts) @ ''}'' @ rest"
  obtain kt kts' where kts: "kts = kt # kts'" using assms(2) by (cases kts) auto
  obtain k tx where kt: "kt = (k, tx)" by (cases kt)
  let ?X = "CHR '':'' # '' '' @ tx @ (if kts' = [] then [] else (CHR '','' # w) @ join (CHR '','' # w) (map ?item kts')) @ ''}'' @ rest"
  have J: "?J = repr_str k @ ?X" by (simp add: kts kt join_Cons)
  have "stop ?X" by simp
  then obtain c r' where c: "skip_ws ?J = c # r'" "c \<noteq> CHR ''}''"
    using renders_first[OF renders_repr_str[of k], of ?X] J by auto
  have 2: "skip_ws (w0 @ ?J) = c # r'" using c(1) assms(3) by (simp add: skip_ws_blanks)
  have "parse MValue (CHR ''{'' # w0 @ ?J) = parse (MDict []) (w0 @ ?J)"
    by (rule parse_MValue_open_dict[OF 2 c(2)])
  also have "\<dots> = parse (MDict []) ?J" using assms(3) by (rule parse_MDict_blanks)
  also have "\<dots> = Some (PDict kvs, rest)"
    using parse_MDict_join[OF assms(1,2,4) s, of "[]"] assms(5) by simp
  finally show "parse MValue ((''{'' @ w0 @ join (CHR '','' # w) (map ?item kts) @ ''}'') @ rest)
                = Some (PDict kvs, rest)"
    by simp
qed

lemma renders_empty:
  "renders ''[]'' (PList [])" "renders ''[ ]'' (PList [])"
  "renders ''{}'' (PDict [])" "renders ''{ }'' (PDict [])"
  by (simp_all add: renders_def parse_MValue skip_ws_Cons py_blank_def)

lemma renders_tree:
  "is_json t \<Longrightarrow> distinct_keys t \<Longrightarrow> finite_floats t \<Longrightarrow>
   renders (safe_repr t) (canon t) \<and> (\<forall>i a l. renders (format t i a l) (canon t))"
proof (induction t)
  case PNone
  then show ?case by (simp add: format_scalar renders_None)
next
  case (PBool b)
  then show ?case by (cases b) (simp_all add: format_scalar renders_True renders_False)
next
  case (PInt n)
  then show ?case by (simp add: format_scalar renders_int)
next
  case (PFloat r)
  then show ?case by (simp add: format_scalar renders_float)
next
  case (PStr s)
  then show ?case by (simp add: renders_repr_str renders_format_PStr)
next
  case (POther tn r)
  then show ?case by simp
next
  case (PList xs)
  have ih: "renders (safe_repr x) (canon x)" "renders (format x i a l) (canon x)"
    if "x \<in> set xs" for x i a l
    using PList.IH[OF that] PList.prems that by auto
  show ?case
  proof (cases "xs = []")
    case True
    have "pprint_list format [] i a l = ''[ ]''" for i a l
      by (simp add: pprint_list_def format_items_def)
    then show ?thesis using True by (simp add: format_PList renders_empty)
  next
    case False
    have one: "renders (safe_repr (PList xs)) (canon (PList xs))"
    proof -
      have "list_all2 renders (map safe_repr xs) (map canon xs)"
        using ih(1) by (simp add: list_all2_map1 list_all2_map2 list_all2_same)
      then have "renders (''['' @ [] @ join (CHR '','' # '' '') (map safe_repr xs) @ '']'')
                   (PList (map canon xs))"
        using False by (intro renders_list_text) (simp_all add: py_blank_def)
      then show ?thesis using False by simp
    qed
    have wrapped: "renders (pprint_list format xs i a l) (canon (PList xs))" for i a l
    proof -
      obtain ts where ts: "items_loop format xs (i + 2) (a + 1) l
                           = join (CHR '','' # CHR 0x0A # replicate (i + 2) CHR '' '') ts"
        "list_all2 (\<lambda>t x. \<exists>a'. t = format x (i + 2) a' l) ts xs"
        using items_loop_join[OF False] by blast
      have "list_all2 (\<lambda>t x. renders t (canon x)) ts xs"
        using ts(2) by (rule list.rel_mono_strong) (auto simp: ih(2))
      then have r: "list_all2 renders ts (map canon xs)" by (simp add: list_all2_map2)
      have tne: "ts \<noteq> []" using ts(2) False by auto
      have "renders (''['' @ '' '' @ join (CHR '','' # CHR 0x0A # replicate (i + 2) CHR '' '') ts @ '']'')
              (PList (map canon xs))"
        using r tne by (intro renders_list_text) (simp_all add: py_blank_def list_all_iff)
      then show ?thesis unfolding pprint_list_def format_items_def ts(1) by simp
    qed
    show ?thesis using one wrapped by (simp add: format_PList del: safe_repr.simps canon.simps)
  qed
next
  case (PDict kvs)
  let ?s = "sort_key fst kvs"
  have ih: "renders (safe_repr v) (canon v)" "renders (format v i a l) (canon v)"
    if "(k, v) \<in> set kvs" for k v i a l
  proof -
    have "is_json v" "distinct_keys v" "finite_floats v" using PDict.prems that by force+
    then show "renders (safe_repr v) (canon v)" "renders (format v i a l) (canon v)"
      using PDict.IH[of "(k, v)" v] that by auto
  qed
  have dist: "distinct (map fst (map (\<lambda>(k, v). (k, canon v)) ?s))"
  proof -
    have "map fst (map (\<lambda>(k, v). (k, canon v)) ?s) = map fst ?s" by (simp add: case_prod_beta)
    moreover have "distinct (map fst ?s)" using PDict.prems by (simp add: distinct_map_sort_key)
    ultimately show ?thesis by (simp only:)
  qed
  show ?case
  proof (cases "kvs = []")
    case True
    have "pprint_dict format [] i a l = ''{ }''" for i a l
      by (simp add: pprint_dict_def)
    then show ?thesis using True by (simp add: format_PDict renders_empty)
  next
    case False
    then have sne: "?s \<noteq> []" by (metis set_sort set_empty)
    have one: "renders (safe_repr (PDict kvs)) (canon (PDict kvs))"
    proof -
      let ?kts = "map (\<lambda>(k, v). (k, safe_repr v)) ?s"
      have "list_all2 (\<lambda>kt kv. fst kt = fst kv \<and> renders (snd kt) (snd kv))
              ?kts (map (\<lambda>(k, v). (k, canon v)) ?s)"
        using ih(1) by (auto simp: list_all2_map1 list_all2_map2 list_all2_same)
      then have r: "renders (''{'' @ [] @ join (CHR '','' # '' '')
                     (map (\<lambda>(k, tx). repr_str k @ '': '' @ tx) ?kts) @ ''}'')
                   (PDict (map (\<lambda>(k, v). (k, canon v)) ?s))"
        using sne dist by (intro renders_dict_text) (simp_all add: py_blank_def)
      have eq: "map (\<lambda>(k, tx). repr_str k @ '': '' @ tx) ?kts
                   = map (\<lambda>(k, v). repr_str k @ '': '' @ safe_repr v) ?s"
        by (simp add: case_prod_beta)
      have e1: "safe_repr (PDict kvs) = ''{'' @ [] @ join (CHR '','' # '' '')
                     (map (\<lambda>(k, tx). repr_str k @ '': '' @ tx) ?kts) @ ''}''"
        unfolding eq using False by simp
      have e2: "canon (PDict kvs) = PDict (map (\<lambda>(k, v). (k, canon v)) ?s)" by simp
      show ?thesis unfolding e1 e2 by (rule r)
    qed
    have wrapped: "renders (pprint_dict format kvs i a l) (canon (PDict kvs))" for i a l
    proof -
      obtain kts where kts: "dict_items_loop format ?s (i + 2) (a + 1) l =
                 join (CHR '','' # CHR 0x0A # replicate (i + 2) CHR '' '')
                   (map (\<lambda>(k, tx). repr_str k @ '': '' @ tx) kts)"
        "list_all2 (\<lambda>kt kv. fst kt = fst kv \<and> (\<exists>i' a'. snd kt = format (snd kv) i' a' l)) kts ?s"
        using dict_items_loop_join[OF sne] by blast
      have "list_all2 (\<lambda>kt kv. fst kt = fst kv \<and> renders (snd kt) (canon (snd kv))) kts ?s"
        using kts(2)
      proof (rule list.rel_mono_strong)
        fix kt kv
        assume "kv \<in> set ?s" and h: "fst kt = fst kv \<and> (\<exists>i' a'. snd kt = format (snd kv) i' a' l)"
        then have "(fst kv, snd kv) \<in> set kvs" by simp
        then have "renders (format (snd kv) i' a' l) (canon (snd kv))" for i' a'
          by (rule ih(2))
        then show "fst kt = fst kv \<and> renders (snd kt) (canon (snd kv))"
          using h by auto
      qed
      then have r: "list_all2 (\<lambda>kt kv. fst kt = fst kv \<and> renders (snd kt) (snd kv))
                      kts (map (\<lambda>(k, v). (k, canon v)) ?s)"
        by (simp add: list_all2_map2 case_prod_beta)
      have kne: "kts \<noteq> []" using kts(2) sne by auto
      have "renders (''{'' @ '' '' @ join (CHR '','' # CHR 0x0A # replicate (i + 2) CHR '' '')
                       (map (\<lambda>(k, tx). repr_str k @ '': '' @ tx) kts) @ ''}'')
              (PDict (map (\<lambda>(k, v). (k, canon v)) ?s))"
        using r kne dist by (intro renders_dict_text) (simp_all add: py_blank_def list_all_iff)
      then show ?thesis using False unfolding pprint_dict_def format_dict_items_def kts(1) by simp
    qed
    show ?thesis using one wrapped by (simp add: format_PDict del: safe_repr.simps canon.simps)
  qed
qed

lemma decode_literal:
  assumes "is_json t" and "distinct_keys t" and "finite_floats t"
  shows "decode (dict_to_python_literal t) = Some (canon t)"
proof -
  have "renders (format t 0 0 0) (canon t)" using renders_tree[OF assms] by simp
  then have "stop [] \<longrightarrow> parse MValue (format t 0 0 0 @ []) = Some (canon t, [])"
    unfolding renders_def by (rule spec)
  then have "parse MValue (format t 0 0 0) = Some (canon t, [])" by simp
  then show ?thesis by (simp add: decode_def dict_to_python_literal_def pformat_def)
qed

lemma same_map_canon: "distinct_keys t \<Longrightarrow> same_map (canon t) t"
proof (induction t)
  case (PList xs)
  then have "list_all2 same_map (map canon xs) xs"
    by (simp add: list_all2_map1 list_all2_same)
  then show ?case by (simp add: same_map.lists)
next
  case (PDict kvs)
  let ?c = "map (\<lambda>(k, v). (k, canon v)) (sort_key fst kvs)"
  have d: "distinct (map fst kvs)" using PDict.prems by simp
  have f: "map fst ?c = map fst (sort_key fst kvs)" by (simp add: case_prod_beta)
  have "same_map (PDict ?c) (PDict kvs)"
  proof (rule same_map.dicts)
    show "distinct (map fst ?c)" unfolding f using d by (simp add: distinct_map_sort_key)
    show "distinct (map fst kvs)" by (rule d)
    show "set (map fst ?c) = set (map fst kvs)" unfolding f by simp
  next
    fix k v1 v2
    assume 1: "(k, v1) \<in> set ?c" and 2: "(k, v2) \<in> set kvs"
    from 1 obtain v where v: "(k, v) \<in> set kvs" "v1 = canon v" by auto
    have "v = v2" using d v(1) 2 by (rule eq_key_imp_eq_value)
    moreover have "distinct_keys v2" using PDict.prems 2 by force
    ultimately show "same_map v1 v2" using PDict.IH[of "(k, v2)" v2] 2 v(2) by simp
  qed
  then show ?case by simp
qed (simp_all add: same_map.scalars is_container_def)

text \<open>
  Claim C7, amended. For a spec made of maps, lists and JSON scalars with finite floats, the
  literal of the fallback statement, read back, is a tree equal as a Python value to the
  entire root spec: the interpreter returns the spec with the items of every dictionary in
  key order.
\<close>

theorem fallback_literal_round_trip:
  assumes "is_json spec" and "distinct_keys spec" and "finite_floats spec"
  shows "decode (dict_to_python_literal spec) = Some (canon spec) \<and> same_map (canon spec) spec"
  using decode_literal[OF assms] same_map_canon[OF assms(2)] by simp

theorem fallback_literal_round_trip_witness:
  "decode (dict_to_python_literal example_A) = Some (canon example_A) \<and>
   same_map (canon example_A) example_A"
proof -
  have "is_json example_A" "distinct_keys example_A" "finite_floats example_A"
    by (simp_all add: example_A_def)
  then show ?thesis by (rule fallback_literal_round_trip)
qed

lemma not_same_map_empty: "\<not> same_map (PDict (kv # kvs)) (PDict [])"
  by (auto elim: same_map.cases simp: is_container_def)

text \<open>
  Claim C7, as stated, fails: the literal is the rendering of the whole spec, so reading it
  back gives the spec with its \<^verbatim>\<open>"provider"\<close> and \<^verbatim>\<open>"config"\<close> keys, not the
  \<^verbatim>\<open>"config"\<close> subtree, here the empty map.
\<close>

theorem literal_is_not_config_subtree:
  "map_of [(''provider'', PStr ''ns.T''), (''config'', PDict [])] ''config'' = Some (PDict []) \<and>
   decode (dict_to_python_literal (PDict [(''provider'', PStr ''ns.T''), (''config'', PDict [])]))
     = Some (PDict [(''config'', PDict []), (''provider'', PStr ''ns.T'')]) \<and>
   \<not> same_map (PDict [(''config'', PDict []), (''provider'', PStr ''ns.T'')]) (PDict [])"
proof -
  have "decode (dict_to_python_literal (PDict [(''provider'', PStr ''ns.T''), (''config'', PDict [])]))
     = Some (canon (PDict [(''provider'', PStr ''ns.T''), (''config'', PDict [])]))"
    by (rule decode_literal) simp_all
  moreover have "canon (PDict [(''provider'', PStr ''ns.T''), (''config'', PDict [])])
     = PDict [(''config'', PDict []), (''provider'', PStr ''ns.T'')]"
    by code_simp
  ultimately show ?thesis by (simp add: not_same_map_empty)
qed

text \<open>A float that is not finite has no literal: its text is not read back.\<close>

lemma nan_literal_refused: "decode (dict_to_python_literal (PList [PFloat ''nan''])) = None"
  by code_simp

end
